theory Spec2Isabelle
  imports Main "HOL-Library.Word" "HOL-Library.FSet" "HOL-Library.Sublist"
begin

chapter \<open>The rtags daemon: orchestration layer\<close>

text \<open>
  A shallow embedding of the parts of \<^verbatim>\<open>Server\<close> (the dispatcher, the project
  registry, source-root discovery, the persistence timer) and of
  \<^verbatim>\<open>IndexerSyncer\<close> (the staging buffer and its writer thread) that the
  specification's testable properties are about. Every definition follows one source
  function; its comment names the function and says what was left outside the model.
\<close>

section \<open>Definitions\<close>

subsection \<open>Job ids: \<^verbatim>\<open>Server::nextId\<close>\<close>

text \<open>
  \<^verbatim>\<open>mJobId\<close> is an \<^verbatim>\<open>int\<close>, a 32-bit machine integer that the
  constructor sets to 0. \<^verbatim>\<open>++mJobId; if (!mJobId) ++mJobId; return mJobId;\<close>
  The model returns the pair of the returned id and the new value of the counter; the
  increment wraps around, and \<open>sint\<close> reads the signed value the caller sees.
\<close>

type_synonym int32 = "32 word"

definition nextId :: "int32 \<Rightarrow> int32 \<times> int32" where
  "nextId mJobId =
     (let j1 = mJobId + 1;
          j2 = (if j1 = 0 then j1 + 1 else j1)
      in (j2, j2))"

subsection \<open>The staging buffer and the writer thread: \<^verbatim>\<open>IndexerSyncer\<close>\<close>

text \<open>
  Modelled from the spec: the types \<^verbatim>\<open>RTags::Location\<close> and
  \<^verbatim>\<open>Rdm::CursorInfo\<close>, whose declarations are not among the sources. A location
  is a pair of a path id and a byte offset, null when the path id is 0. A cursor info has a
  kind, a target location (may be null), a set of reference locations, a usr string and a
  symbol name; a default-constructed one is empty with a null target. Of the cursor kinds
  only the classes that \<^verbatim>\<open>unite\<close> tells apart are kept.
\<close>

datatype Location = Location (fileId: nat) (offset: nat)

definition isNull :: "Location \<Rightarrow> bool" where
  "isNull loc = (fileId loc = 0)"

definition nullLocation :: Location where
  "nullLocation = Location 0 0"

datatype ReferenceType = NormalReference | MemberFunction | GlobalFunction

datatype CursorKind = InvalidKind | DeclarationLike | DefinitionLike

record CursorInfo =
  kind :: CursorKind
  target :: Location
  references :: "Location fset"
  usr :: string
  symbolName :: string

definition emptyCursorInfo :: CursorInfo where
  "emptyCursorInfo =
     \<lparr>kind = InvalidKind, target = nullLocation, references = {||}, usr = [],
      symbolName = []\<rparr>"

text \<open>
  Modelled from the spec: \<^verbatim>\<open>CursorInfo::unite\<close>, which the writer calls and whose
  body is not among the sources. It unions the reference sets, fills a null target from the
  incoming value, keeps kind and usr when both sides agree and otherwise prefers an incoming
  definition-like kind over a declaration-like one. It returns whether the receiver changed.
\<close>

definition unite :: "CursorInfo \<Rightarrow> CursorInfo \<Rightarrow> bool \<times> CursorInfo" where
  "unite cur other =
     (let c1 = cur\<lparr>references := references cur |\<union>| references other\<rparr>;
          c2 = (if isNull (target c1) then c1\<lparr>target := target other\<rparr> else c1);
          c3 = (if kind c2 = kind other \<and> usr c2 = usr other then c2
                else if kind other = DefinitionLike \<and> kind c2 = DeclarationLike
                then c2\<lparr>kind := kind other, usr := usr other, symbolName := symbolName other\<rparr>
                else c2)
      in (c3 \<noteq> cur, c3))"

text \<open>
  A \<^verbatim>\<open>QHash\<close> is an association list in the order the writer's iterator visits it;
  a hash has each key once, which theorems assume as \<open>distinct (map fst h)\<close> where they
  need it. \<open>hashModify k f d h\<close> is \<^verbatim>\<open>h[k] = f(h[k])\<close>: \<^verbatim>\<open>operator[]\<close> inserts
  the default-constructed value \<open>d\<close> for a key that is absent. \<open>hashValue d h k\<close> reads
  \<^verbatim>\<open>h[k]\<close> without inserting.
\<close>

type_synonym ('k, 'v) qhash = "('k \<times> 'v) list"

fun hashModify :: "'k \<Rightarrow> ('v \<Rightarrow> 'v) \<Rightarrow> 'v \<Rightarrow> ('k, 'v) qhash \<Rightarrow> ('k, 'v) qhash" where
  "hashModify k f d [] = [(k, f d)]"
| "hashModify k f d ((k', v) # h) =
     (if k' = k then (k', f v) # h else (k', v) # hashModify k f d h)"

definition hashValue :: "'v \<Rightarrow> ('k, 'v) qhash \<Rightarrow> 'k \<Rightarrow> 'v" where
  "hashValue d h k = (case map_of h k of None \<Rightarrow> d | Some v \<Rightarrow> v)"

text \<open>
  \<^verbatim>\<open>IndexerSyncer::addSymbolNames\<close>, under the mutex: an empty staging map is replaced
  by the argument, otherwise each entry of the argument is united into its key.
\<close>

definition addSymbolNames ::
  "(string, Location fset) qhash \<Rightarrow> (string, Location fset) qhash
   \<Rightarrow> (string, Location fset) qhash" where
  "addSymbolNames locations mSymbolNames =
     (if mSymbolNames = [] then locations
      else fold (\<lambda>(k, v). hashModify k (\<lambda>s. s |\<union>| v) {||}) locations mSymbolNames)"

text \<open>
  \<^verbatim>\<open>addTo(container, value)\<close>: \<^verbatim>\<open>container += value\<close>, and whether the size
  changed. The pair is the returned flag and the container afterwards.
\<close>

definition addTo :: "'a fset \<Rightarrow> 'a fset \<Rightarrow> bool \<times> 'a fset" where
  "addTo container val =
     (let oldSize = fcard container;
          container' = container |\<union>| val
      in (fcard container' \<noteq> oldSize, container'))"

text \<open>
  A store is a map from keys to values. \<^verbatim>\<open>Rdm::readValue\<close> of a key that is absent
  gives the default-constructed value. A \<^verbatim>\<open>leveldb::WriteBatch\<close> applies its puts in
  order when it is written, so a later put to a key replaces an earlier one: the batch is
  the map of each key's last put, and writing it is \<open>db ++ batch\<close>. Reads during the cycle go
  to the store, not to the batch.
\<close>

definition readValue :: "('k \<rightharpoonup> 'a fset) \<Rightarrow> 'k \<Rightarrow> 'a fset" where
  "readValue db key = (case db key of None \<Rightarrow> {||} | Some v \<Rightarrow> v)"

text \<open>
  \<^verbatim>\<open>IndexerSyncer::run\<close>, the symbol-names block, on the map swapped out of the staging
  buffer. The loop carries \<^verbatim>\<open>changed\<close> and the batch. \<open>opens\<close> is whether
  \<^verbatim>\<open>db.open\<close> succeeds; when it fails the thread returns, which is \<open>None\<close>.
\<close>

fun symbolNamesLoop ::
  "(string \<rightharpoonup> Location fset) \<Rightarrow> (string, Location fset) qhash
   \<Rightarrow> bool \<times> (string \<rightharpoonup> Location fset) \<Rightarrow> bool \<times> (string \<rightharpoonup> Location fset)" where
  "symbolNamesLoop db [] acc = acc"
| "symbolNamesLoop db ((key, added) # rest) (changed, batch) =
     (case addTo (readValue db key) added of
        (True, current) \<Rightarrow> symbolNamesLoop db rest (True, batch(key \<mapsto> current))
      | (False, current) \<Rightarrow> symbolNamesLoop db rest (changed, batch))"

definition symbolNamesBatch ::
  "(string \<rightharpoonup> Location fset) \<Rightarrow> (string, Location fset) qhash
   \<Rightarrow> (string \<rightharpoonup> Location fset)" where
  "symbolNamesBatch db symbolNames = snd (symbolNamesLoop db symbolNames (False, Map.empty))"

definition symbolNamesPhase ::
  "bool \<Rightarrow> (string \<rightharpoonup> Location fset) \<Rightarrow> (string, Location fset) qhash
   \<Rightarrow> (string \<rightharpoonup> Location fset) option" where
  "symbolNamesPhase opens db symbolNames =
     (if symbolNames = [] then Some db
      else if \<not> opens then None
      else (case symbolNamesLoop db symbolNames (False, Map.empty) of
              (changed, batch) \<Rightarrow> Some (if changed then db ++ batch else db)))"

text \<open>
  What the producers staged for a key: the union of the sets that the calls' arguments give
  it.
\<close>

definition entriesFor :: "('k, 'a fset) qhash \<Rightarrow> 'k \<Rightarrow> 'a fset" where
  "entriesFor c k = fold (|\<union>|) (map snd (filter (\<lambda>e. fst e = k) c)) {||}"

definition stagedFor :: "('k, 'a fset) qhash list \<Rightarrow> 'k \<Rightarrow> 'a fset" where
  "stagedFor calls k = entriesFor (concat calls) k"

text \<open>
  \<^verbatim>\<open>IndexerSyncer::run\<close>, the references block and the symbols block. They share the
  local map \<^verbatim>\<open>symbols\<close>, the handle \<^verbatim>\<open>symbolDB\<close> (open or not),
  \<^verbatim>\<open>changedSymbols\<close> and \<^verbatim>\<open>symbolsBatch\<close>.
\<close>

definition readCursorInfo :: "(Location \<rightharpoonup> CursorInfo) \<Rightarrow> Location \<Rightarrow> CursorInfo" where
  "readCursorInfo db key = (case db key of None \<Rightarrow> emptyCursorInfo | Some v \<Rightarrow> v)"

record syncer =
  symbols :: "(Location, CursorInfo) qhash"
  symbolDBOpen :: bool
  changedSymbols :: bool
  symbolsBatch :: "Location \<rightharpoonup> CursorInfo"

definition openSymbolDB :: "bool \<Rightarrow> syncer \<Rightarrow> syncer option" where
  "openSymbolDB opens st =
     (if symbolDBOpen st then Some st
      else if opens then Some (st\<lparr>symbolDBOpen := True\<rparr>)
      else None)"

definition writeValue :: "Location \<Rightarrow> CursorInfo \<Rightarrow> syncer \<Rightarrow> syncer" where
  "writeValue key v st =
     st\<lparr>changedSymbols := True, symbolsBatch := (symbolsBatch st)(key \<mapsto> v)\<rparr>"

definition addRefs :: "Location fset \<Rightarrow> CursorInfo \<Rightarrow> CursorInfo" where
  "addRefs locs ci = ci\<lparr>references := references ci |\<union>| locs\<rparr>"

text \<open>
  The branch \<^verbatim>\<open>sym != symbols.end()\<close>: the target of the reference is in the staged
  symbols. \<^verbatim>\<open>ci\<close> is \<^verbatim>\<open>symbols[to]\<close> and \<^verbatim>\<open>other\<close> is
  \<^verbatim>\<open>symbols[from]\<close>, which \<^verbatim>\<open>operator[]\<close> creates when absent; each assignment
  of the source is one update, in the source's order, so that the two may be the same entry.
\<close>

definition referenceInMemory ::
  "Location \<Rightarrow> Location \<Rightarrow> ReferenceType \<Rightarrow> (Location, CursorInfo) qhash
   \<Rightarrow> (Location, CursorInfo) qhash" where
  "referenceInMemory from to rt syms =
     (let s1 = hashModify to (addRefs {|from|}) emptyCursorInfo syms
      in if rt \<noteq> NormalReference
         then
           (let s2 = hashModify from id emptyCursorInfo s1;
                s3 = hashModify to
                       (addRefs (references (hashValue emptyCursorInfo s2 from)))
                       emptyCursorInfo s2;
                s4 = hashModify from
                       (addRefs (references (hashValue emptyCursorInfo s3 to)))
                       emptyCursorInfo s3
            in if isNull (target (hashValue emptyCursorInfo s4 from))
               then hashModify from (\<lambda>other. other\<lparr>target := to\<rparr>) emptyCursorInfo s4
               else s4)
         else s1)"

text \<open>
  The other branch reads, modifies and writes against the store. \<open>backLinkInDB\<close> is the
  block under \<^verbatim>\<open>it.value().second != Rdm::NormalReference\<close>; it returns
  \<^verbatim>\<open>current\<close>, whether the block changed it, \<^verbatim>\<open>other\<close> and
  \<^verbatim>\<open>changedOther\<close>.
\<close>

definition backLinkInDB ::
  "(Location \<rightharpoonup> CursorInfo) \<Rightarrow> Location \<Rightarrow> Location \<Rightarrow> CursorInfo
   \<Rightarrow> CursorInfo \<times> bool \<times> CursorInfo \<times> bool" where
  "backLinkInDB db from to current =
     (let other = readCursorInfo db from;
          (c1, orefs) = addTo (references other) {|from|};
          (c2, orefs) = addTo orefs (references current);
          other = other\<lparr>references := orefs\<rparr>;
          (c3, crefs) = addTo (references current) (references other);
          current = current\<lparr>references := crefs\<rparr>;
          (c4, other) = (if isNull (target other)
                         then (True, other\<lparr>target := to\<rparr>) else (False, other))
      in (current, c3, other, c1 \<or> c2 \<or> c4))"

definition referenceInDB ::
  "(Location \<rightharpoonup> CursorInfo) \<Rightarrow> Location \<Rightarrow> Location \<Rightarrow> ReferenceType \<Rightarrow> syncer
   \<Rightarrow> syncer" where
  "referenceInDB db from to rt st =
     (let current = readCursorInfo db to;
          (changedCurrent, refs) = addTo (references current) {|from|};
          current = current\<lparr>references := refs\<rparr>;
          (current, changedCurrent, st) =
            (if rt \<noteq> NormalReference
             then (case backLinkInDB db from to current of
                     (current, c3, other, changedOther) \<Rightarrow>
                       (current, changedCurrent \<or> c3,
                        if changedOther then writeValue from other st else st))
             else (current, changedCurrent, st))
      in if changedCurrent then writeValue to current st else st)"

definition referenceStep ::
  "bool \<Rightarrow> (Location \<rightharpoonup> CursorInfo) \<Rightarrow> Location \<times> Location \<times> ReferenceType
   \<Rightarrow> syncer \<Rightarrow> syncer option" where
  "referenceStep opens db e st =
     (case e of (from, to, rt) \<Rightarrow>
        (case map_of (symbols st) to of
           Some ci \<Rightarrow> Some (st\<lparr>symbols := referenceInMemory from to rt (symbols st)\<rparr>)
         | None \<Rightarrow>
             (case openSymbolDB opens st of
                None \<Rightarrow> None
              | Some st1 \<Rightarrow> Some (referenceInDB db from to rt st1))))"

fun referencesLoop ::
  "bool \<Rightarrow> (Location \<rightharpoonup> CursorInfo) \<Rightarrow> (Location, Location \<times> ReferenceType) qhash
   \<Rightarrow> syncer \<Rightarrow> syncer option" where
  "referencesLoop opens db [] st = Some st"
| "referencesLoop opens db (e # es) st =
     (case referenceStep opens db e st of
        None \<Rightarrow> None
      | Some st1 \<Rightarrow> referencesLoop opens db es st1)"

fun symbolsLoop ::
  "(Location \<rightharpoonup> CursorInfo) \<Rightarrow> (Location, CursorInfo) qhash \<Rightarrow> syncer \<Rightarrow> syncer" where
  "symbolsLoop db [] st = st"
| "symbolsLoop db ((key, added) # rest) st =
     (case unite (readCursorInfo db key) added of
        (True, current) \<Rightarrow> symbolsLoop db rest (writeValue key current st)
      | (False, current) \<Rightarrow> symbolsLoop db rest st)"

definition writeSymbols ::
  "(Location \<rightharpoonup> CursorInfo) \<Rightarrow> syncer \<Rightarrow> (Location \<rightharpoonup> CursorInfo)" where
  "writeSymbols db st = (if changedSymbols st then db ++ symbolsBatch st else db)"

text \<open>
  The two blocks in sequence, from the staged symbols and references to the symbols store
  after \<^verbatim>\<open>symbolDB.db()->Write\<close>; \<open>None\<close> when the store cannot be opened. The
  blocks for dependencies and file information follow them and write other stores.
\<close>

definition symbolsPhases ::
  "bool \<Rightarrow> (Location \<rightharpoonup> CursorInfo) \<Rightarrow> (Location, CursorInfo) qhash
   \<Rightarrow> (Location, Location \<times> ReferenceType) qhash \<Rightarrow> (Location \<rightharpoonup> CursorInfo) option" where
  "symbolsPhases opens db syms refs =
     (case referencesLoop opens db refs
             \<lparr>symbols = syms, symbolDBOpen = False, changedSymbols = False,
              symbolsBatch = Map.empty\<rparr> of
        None \<Rightarrow> None
      | Some st1 \<Rightarrow>
          (if symbols st1 = [] then Some (writeSymbols db st1)
           else (case openSymbolDB opens st1 of
                   None \<Rightarrow> None
                 | Some st2 \<Rightarrow> Some (writeSymbols db (symbolsLoop db (symbols st2) st2)))))"

text \<open>What a reader finds under a key of the symbols store after the cycle.\<close>

definition symbolAfterCycle ::
  "(Location \<rightharpoonup> CursorInfo) \<Rightarrow> (Location, CursorInfo) qhash
   \<Rightarrow> (Location, Location \<times> ReferenceType) qhash \<Rightarrow> Location \<Rightarrow> CursorInfo option" where
  "symbolAfterCycle db syms refs key =
     map_option (\<lambda>db'. readCursorInfo db' key) (symbolsPhases True db syms refs)"

subsection \<open>Invariants of the writer's references and symbols blocks\<close>

text \<open>
  \<open>symbolsGrow s s'\<close>: from \<open>s\<close> to \<open>s'\<close> the staged symbols keep their keys, their
  reference sets only grow and a target that is set stays. \<open>linked s from to\<close> is what
  the in-memory branch leaves for a reference that is not normal. \<open>covers c v\<close>: the stored
  value \<open>v\<close> has the references of \<open>c\<close>, and a target if \<open>c\<close> has one. \<open>batchAbove\<close>:
  every put of the batch covers what the store holds under its key, and the batch is empty
  while \<^verbatim>\<open>changedSymbols\<close> is false. \<open>stored\<close> is what the store will hold under a
  key once the batch is written.
\<close>

abbreviation ciAt :: "(Location, CursorInfo) qhash \<Rightarrow> Location \<Rightarrow> CursorInfo" where
  "ciAt syms k \<equiv> hashValue emptyCursorInfo syms k"

definition symbolsGrow :: "(Location, CursorInfo) qhash \<Rightarrow> (Location, CursorInfo) qhash \<Rightarrow> bool" where
  "symbolsGrow s s' =
     (fst ` set s \<subseteq> fst ` set s'
      \<and> (\<forall>k. references (ciAt s k) |\<subseteq>| references (ciAt s' k))
      \<and> (\<forall>k. \<not> isNull (target (ciAt s k)) \<longrightarrow> target (ciAt s' k) = target (ciAt s k)))"

definition linked :: "(Location, CursorInfo) qhash \<Rightarrow> Location \<Rightarrow> Location \<Rightarrow> bool" where
  "linked s from to =
     (from \<in> fst ` set s \<and> to \<in> fst ` set s
      \<and> from |\<in>| references (ciAt s to)
      \<and> from |\<in>| references (ciAt s from)
      \<and> \<not> isNull (target (ciAt s from)))"

definition covers :: "CursorInfo \<Rightarrow> CursorInfo \<Rightarrow> bool" where
  "covers c v =
     (references c |\<subseteq>| references v \<and> (\<not> isNull (target c) \<longrightarrow> \<not> isNull (target v)))"

definition batchAbove :: "(Location \<rightharpoonup> CursorInfo) \<Rightarrow> syncer \<Rightarrow> bool" where
  "batchAbove db st =
     ((\<forall>k v. symbolsBatch st k = Some v \<longrightarrow> covers (readCursorInfo db k) v)
      \<and> (\<not> changedSymbols st \<longrightarrow> symbolsBatch st = Map.empty))"

definition stored :: "(Location \<rightharpoonup> CursorInfo) \<Rightarrow> syncer \<Rightarrow> Location \<Rightarrow> CursorInfo" where
  "stored db st k = (case symbolsBatch st k of Some v \<Rightarrow> v | None \<Rightarrow> readCursorInfo db k)"

subsection \<open>The persistence timer: \<^verbatim>\<open>Server::onJobsComplete\<close>, \<^verbatim>\<open>onJobStarted\<close>, \<^verbatim>\<open>saveTimerCallback\<close>\<close>

text \<open>
  A \<^verbatim>\<open>shared_ptr<Indexer>\<close> is compared by address: an indexer is a number. The
  event loop's timers are a map from timer id to the interval (in milliseconds) and the
  user data of the callback, here always \<^verbatim>\<open>Server::saveTimerCallback\<close> with the
  indexer. \<^verbatim>\<open>EventLoop::addTimer\<close> is not among the sources: the id it returns is an
  argument of the model. \<^verbatim>\<open>mSaveTimers.take(indexer, &ok)\<close> removes the entry and
  returns its value.
\<close>

type_synonym indexer = nat

record timer =
  interval :: nat
  userData :: indexer

record persistence =
  mSaveTimers :: "indexer \<rightharpoonup> int"
  loopTimers :: "int \<rightharpoonup> timer"

definition removeTimer :: "int \<Rightarrow> persistence \<Rightarrow> persistence" where
  "removeTimer tid st = st\<lparr>loopTimers := (loopTimers st)(tid := None)\<rparr>"

definition addTimer :: "int \<Rightarrow> nat \<Rightarrow> indexer \<Rightarrow> persistence \<Rightarrow> persistence" where
  "addTimer tid ms ix st =
     st\<lparr>loopTimers := (loopTimers st)(tid \<mapsto> \<lparr>interval = ms, userData = ix\<rparr>)\<rparr>"

text \<open>
  The three lines both handlers start with:
  \<^verbatim>\<open>id = mSaveTimers.take(indexer, &ok); if (ok && id != -1) removeTimer(id);\<close>
\<close>

definition takeSaveTimer :: "indexer \<Rightarrow> persistence \<Rightarrow> persistence" where
  "takeSaveTimer ix st =
     (case mSaveTimers st ix of
        None \<Rightarrow> st
      | Some tid \<Rightarrow>
          (let st1 = st\<lparr>mSaveTimers := (mSaveTimers st)(ix := None)\<rparr>
           in if tid \<noteq> - 1 then removeTimer tid st1 else st1))"

definition onJobsComplete :: "indexer \<Rightarrow> int \<Rightarrow> int \<Rightarrow> persistence \<Rightarrow> persistence" where
  "onJobsComplete ix count newId st =
     (let st1 = takeSaveTimer ix st
      in if count \<noteq> 0
         then (addTimer newId 5000 ix st1)\<lparr>mSaveTimers := (mSaveTimers st1)(ix \<mapsto> newId)\<rparr>
         else st1)"

definition onJobStarted :: "indexer \<Rightarrow> persistence \<Rightarrow> persistence" where
  "onJobStarted ix st = takeSaveTimer ix st"

text \<open>
  A timer fires only while the event loop holds it. \<^verbatim>\<open>saveTimerCallback(id, userData)\<close>
  removes it and saves the indexer it carries: \<open>timerFires\<close> gives that indexer and the
  state after \<^verbatim>\<open>removeTimer\<close>, or \<open>None\<close> when the loop has no such timer.
\<close>

definition timerFires :: "int \<Rightarrow> persistence \<Rightarrow> (indexer \<times> persistence) option" where
  "timerFires tid st =
     (case loopTimers st tid of
        None \<Rightarrow> None
      | Some t \<Rightarrow> Some (userData t, removeTimer tid st))"

text \<open>
  The timers of the loop that would save a given indexer, and the invariant that the server
  knows each of them: a timer of the loop is the one \<^verbatim>\<open>mSaveTimers\<close> records for its
  indexer, and its id is not the \<^verbatim>\<open>-1\<close> that the handlers skip.
\<close>

definition armedFor :: "persistence \<Rightarrow> indexer \<Rightarrow> int set" where
  "armedFor st ix = {tid. \<exists>t. loopTimers st tid = Some t \<and> userData t = ix}"

definition tracked :: "persistence \<Rightarrow> bool" where
  "tracked st =
     (\<forall>tid t. loopTimers st tid = Some t \<longrightarrow>
        tid \<noteq> - 1 \<and> mSaveTimers st (userData t) = Some tid)"

subsection \<open>The project registry: \<^verbatim>\<open>Server::updateProjectForLocation\<close>, \<^verbatim>\<open>setCurrentProject\<close>\<close>

text \<open>
  Of a \<^verbatim>\<open>Project\<close> (its class is not among the sources) the model keeps what the
  server reads: the two source roots, \<^verbatim>\<open>isValid()\<close>, the indexer (a null pointer is
  \<open>None\<close>), the file ids \<^verbatim>\<open>isIndexed\<close> accepts and the paths the file manager
  contains (a null \<^verbatim>\<open>fileManager\<close> is \<open>None\<close>). \<^verbatim>\<open>mProjects\<close> is a
  \<^verbatim>\<open>Map<Path, shared_ptr<Project>>\<close>: the list of its entries in the order its iterator
  visits them, each key once. Every entry holds a project object of its own, so the pointer
  comparison \<^verbatim>\<open>it->second == cur\<close> is a comparison of keys, and the weak pointer
  \<^verbatim>\<open>mCurrentProject\<close> is the key of the project it refers to, \<open>None\<close> when it is
  null. \<^verbatim>\<open>setCurrentProject\<close> also asks for a remake of a project that is not valid:
  \<open>remakes\<close> lists these requests.
\<close>

record project =
  srcRoot :: string
  resolvedSrcRoot :: string
  isValid :: bool
  projectIndexer :: "nat option"
  indexedFiles :: "nat list"
  fileManager :: "string list option"

record registry =
  mProjects :: "(string \<times> project) list"
  mCurrentProject :: "string option"
  remakes :: "string list"

text \<open>
  \<^verbatim>\<open>!strncmp(a, b, n)\<close> on the two byte arrays' \<^verbatim>\<open>constData()\<close>, which end in
  a NUL byte: the first \<open>n\<close> bytes are compared, and the comparison stops after a NUL.
\<close>

fun strncmpEq :: "nat \<Rightarrow> string \<Rightarrow> string \<Rightarrow> bool" where
  "strncmpEq 0 a b = True"
| "strncmpEq (Suc n) [] [] = True"
| "strncmpEq (Suc n) [] (y # ys) = (y = CHR 0x00)"
| "strncmpEq (Suc n) (x # xs) [] = (x = CHR 0x00)"
| "strncmpEq (Suc n) (x # xs) (y # ys) = (x = y \<and> (x = CHR 0x00 \<or> strncmpEq n xs ys))"

definition rootMatches :: "string \<Rightarrow> string \<Rightarrow> bool" where
  "rootMatches root path = (root \<noteq> [] \<and> strncmpEq (length root) root path)"

definition setCurrentProject :: "string option \<Rightarrow> registry \<Rightarrow> registry" where
  "setCurrentProject proj reg =
     (let reg1 = reg\<lparr>mCurrentProject := proj\<rparr>
      in case proj of
           None \<Rightarrow> reg1
         | Some key \<Rightarrow>
             (case map_of (mProjects reg) key of
                None \<Rightarrow> reg1
              | Some p \<Rightarrow> if \<not> isValid p then reg1\<lparr>remakes := remakes reg1 @ [key]\<rparr> else reg1))"

text \<open>
  The loop of \<^verbatim>\<open>updateProjectForLocation\<close> over the entries that are left, with
  \<^verbatim>\<open>match\<close> and \<^verbatim>\<open>longest\<close>. \<open>None\<close> is the \<^verbatim>\<open>return true\<close> inside the
  loop, taken when an entry whose \<^verbatim>\<open>srcRoot\<close> matches is the current project; otherwise
  the result is \<^verbatim>\<open>match\<close> at the end of the loop.
\<close>

fun projectLoop ::
  "string option \<Rightarrow> string \<Rightarrow> (string \<times> project) list \<Rightarrow> string option \<Rightarrow> int
   \<Rightarrow> string option option" where
  "projectLoop cur path [] match longest = Some match"
| "projectLoop cur path ((key, p) # rest) match longest =
     (if rootMatches (srcRoot p) path \<and> Some key = cur then None
      else
        (let (match, longest) =
               (if rootMatches (srcRoot p) path \<and> int (length (srcRoot p)) > longest
                then (Some key, int (length (srcRoot p))) else (match, longest));
             (match, longest) =
               (if rootMatches (resolvedSrcRoot p) path
                   \<and> int (length (resolvedSrcRoot p)) > longest
                then (Some key, int (length (resolvedSrcRoot p))) else (match, longest))
         in projectLoop cur path rest match longest))"

definition updateProjectForLocation :: "string \<Rightarrow> registry \<Rightarrow> bool \<times> registry" where
  "updateProjectForLocation path reg =
     (case projectLoop (mCurrentProject reg) path (mProjects reg) None (- 1) of
        None \<Rightarrow> (True, reg)
      | Some None \<Rightarrow> (False, reg)
      | Some (Some key) \<Rightarrow> (True, setCurrentProject (Some key) reg))"

text \<open>
  What the selection rule of the specification describes: the length of the longest root of
  a project that matches the path (\<open>- 1\<close> when neither does), and the first entry of the
  registry whose length is the greatest, if any root matches at all.
\<close>

definition matchLength :: "string \<Rightarrow> project \<Rightarrow> int" where
  "matchLength path p =
     max (if rootMatches (srcRoot p) path then int (length (srcRoot p)) else - 1)
         (if rootMatches (resolvedSrcRoot p) path then int (length (resolvedSrcRoot p)) else - 1)"

fun firstLongest :: "string \<Rightarrow> (string \<times> project) list \<Rightarrow> string option \<Rightarrow> int \<Rightarrow> string option" where
  "firstLongest path [] best len = best"
| "firstLongest path ((key, p) # rest) best len =
     (if matchLength path p > len then firstLongest path rest (Some key) (matchLength path p)
      else firstLongest path rest best len)"

definition longestPrefixProject :: "string \<Rightarrow> (string \<times> project) list \<Rightarrow> string option" where
  "longestPrefixProject path projs = firstLongest path projs None (- 1)"


subsection \<open>The query \<^verbatim>\<open>IsIndexed\<close>: \<^verbatim>\<open>Server::isIndexed\<close>\<close>

text \<open>
  \<^verbatim>\<open>path.isFile()\<close>, \<^verbatim>\<open>path.isDir()\<close> and \<^verbatim>\<open>Location::fileId(path)\<close> ask
  the file system and the path interner: their answers are arguments. The result is the line
  written to the connection and the registry afterwards; \<open>None\<close> is the dereference of a
  null \<^verbatim>\<open>fileManager\<close>. \<^verbatim>\<open>currentProject()\<close> locks the weak pointer: the project
  registered under the current key. The restore \<^verbatim>\<open>if (old) mCurrentProject = old\<close> is an
  assignment, not a call of \<^verbatim>\<open>setCurrentProject\<close>.
\<close>

datatype pathType = File | Directory | Other

definition currentProject :: "registry \<Rightarrow> project option" where
  "currentProject reg =
     (case mCurrentProject reg of None \<Rightarrow> None | Some key \<Rightarrow> map_of (mProjects reg) key)"

definition restoreCurrent :: "string option \<Rightarrow> registry \<Rightarrow> registry" where
  "restoreCurrent old reg =
     (case old of None \<Rightarrow> reg | Some key \<Rightarrow> reg\<lparr>mCurrentProject := Some key\<rparr>)"

definition isIndexed ::
  "pathType \<Rightarrow> nat \<Rightarrow> string \<Rightarrow> registry \<Rightarrow> (string \<times> registry) option" where
  "isIndexed ptype fid path reg =
     (case ptype of
        File \<Rightarrow>
          (if fid \<noteq> 0
           then
             (let old = mCurrentProject reg;
                  reg1 = snd (updateProjectForLocation path reg)
              in case currentProject reg1 of
                   Some cur \<Rightarrow>
                     if fid \<in> set (indexedFiles cur)
                     then Some (''1'', restoreCurrent old reg1)
                     else Some (''0'', restoreCurrent old reg1)
                 | None \<Rightarrow> Some (''0'', restoreCurrent old reg1))
           else Some (''0'', reg))
      | Directory \<Rightarrow>
          (let reg1 = snd (updateProjectForLocation path reg)
           in case currentProject reg1 of
                Some cur \<Rightarrow>
                  (case fileManager cur of
                     None \<Rightarrow> None
                   | Some paths \<Rightarrow>
                       if path \<in> set paths then Some (''1'', reg1) else Some (''0'', reg1))
              | None \<Rightarrow> Some (''0'', reg1))
      | Other \<Rightarrow> Some (''0'', reg))"

subsection \<open>Pending lookups: \<^verbatim>\<open>Server::onConnectionDestroyed\<close> and \<^verbatim>\<open>Server::event\<close>\<close>

text \<open>
  \<^verbatim>\<open>mPendingLookups\<close> is a \<^verbatim>\<open>Map<int, Connection*>\<close>: the list of its entries, each
  job id once. A connection is a number (its address); of a \<^verbatim>\<open>Connection\<close>, whose class
  is not among the sources, the model keeps whether it is connected, whether a write to it
  succeeds, what was written and whether \<^verbatim>\<open>finish()\<close> was called. A job is known by
  its id, the one its output events carry; \<open>aborted\<close> holds the jobs whose
  \<^verbatim>\<open>abort()\<close> was called. In a \<^verbatim>\<open>JobOutputEvent\<close>, \<open>evJob\<close> tells whether the
  weak pointer \<^verbatim>\<open>e->job\<close> still locks.
\<close>

record connection =
  isConnected :: bool
  writable :: bool
  written :: "string list"
  finished :: bool

record dispatcher =
  mPendingLookups :: "(int32 \<times> nat) list"
  connections :: "nat \<rightharpoonup> connection"
  aborted :: "int32 set"

record jobOutputEvent =
  evId :: int32
  evJob :: bool
  out :: string
  finish :: bool

text \<open>The loop of \<^verbatim>\<open>onConnectionDestroyed\<close>: erase the entry or step over it.\<close>

fun eraseLookups :: "nat \<Rightarrow> (int32 \<times> nat) list \<Rightarrow> (int32 \<times> nat) list" where
  "eraseLookups conn [] = []"
| "eraseLookups conn ((jobId, c) # rest) =
     (if c = conn then eraseLookups conn rest else (jobId, c) # eraseLookups conn rest)"

definition onConnectionDestroyed :: "nat \<Rightarrow> dispatcher \<Rightarrow> dispatcher" where
  "onConnectionDestroyed conn st =
     st\<lparr>mPendingLookups := eraseLookups conn (mPendingLookups st)\<rparr>"

definition abortJob :: "jobOutputEvent \<Rightarrow> dispatcher \<Rightarrow> dispatcher" where
  "abortJob e st = (if evJob e then st\<lparr>aborted := insert (evId e) (aborted st)\<rparr> else st)"

text \<open>
  \<^verbatim>\<open>Server::event\<close> on a \<^verbatim>\<open>JobOutputEvent\<close>. \<open>None\<close> is the use of a connection
  pointer that no connection stands behind.
\<close>

definition event :: "jobOutputEvent \<Rightarrow> dispatcher \<Rightarrow> dispatcher option" where
  "event e st =
     (case map_of (mPendingLookups st) (evId e) of
        None \<Rightarrow> Some (abortJob e st)
      | Some c \<Rightarrow>
          (case connections st c of
             None \<Rightarrow> None
           | Some conn \<Rightarrow>
               if \<not> isConnected conn then Some (abortJob e st)
               else if out e \<noteq> [] \<and> \<not> writable conn then Some (abortJob e st)
               else
                 (let conn1 = (if out e \<noteq> [] then conn\<lparr>written := written conn @ [out e]\<rparr>
                               else conn);
                      conn2 = (if finish e then conn1\<lparr>finished := True\<rparr> else conn1)
                  in Some (st\<lparr>connections := (connections st)(c \<mapsto> conn2)\<rparr>))))"

subsection \<open>Saving: \<^verbatim>\<open>Server::save\<close> and \<^verbatim>\<open>Server::saveTimerCallback\<close>\<close>

text \<open>
  A file is the list of the items a \<^verbatim>\<open>Serializer\<close> wrote to it; the files of the data
  directory are a map from their paths. What the function asks of its surroundings is a
  record: the data directory, \<^verbatim>\<open>DatabaseVersion\<close>, whether \<^verbatim>\<open>Path::mkdir\<close> succeeds,
  for which paths \<^verbatim>\<open>fopen(p, "w")\<close> succeeds, \<^verbatim>\<open>RTags::encodePath\<close>, the interner's
  \<^verbatim>\<open>pathsToIds\<close>, and for \<^verbatim>\<open>Project::save\<close> and \<^verbatim>\<open>Indexer::save\<close> (their
  bodies are not among the sources) whether they succeed and what they had written by then.
  \<^verbatim>\<open>fopen(p, "w")\<close> opens the file at its final path and truncates it.
\<close>

datatype blobItem = Int32 int32 | PathsToIds "(string \<times> nat) list" | Bytes string

record saveEnv =
  dataDir :: string
  databaseVersion :: int32
  mkdirOk :: bool
  canOpen :: "string \<Rightarrow> bool"
  encodePath :: "string \<Rightarrow> string"
  pathsToIds :: "(string \<times> nat) list"
  projectSave :: "string \<Rightarrow> bool \<times> blobItem list"
  indexerSave :: "indexer \<Rightarrow> bool \<times> blobItem list"

text \<open>
  The loop over \<^verbatim>\<open>mProjects\<close>: entries of other indexers are stepped over; the first
  entry of this indexer is written and ends the loop, by \<^verbatim>\<open>break\<close> or by one of the
  \<^verbatim>\<open>return\<close>s.
\<close>

fun saveProject ::
  "saveEnv \<Rightarrow> indexer \<Rightarrow> (string \<times> project) list \<Rightarrow> (string \<rightharpoonup> blobItem list)
   \<Rightarrow> (string \<rightharpoonup> blobItem list)" where
  "saveProject env ix [] files = files"
| "saveProject env ix ((key, p) # rest) files =
     (if projectIndexer p \<noteq> Some ix then saveProject env ix rest files
      else
        (let path = dataDir env @ encodePath env key
         in if \<not> canOpen env path then files
            else
              (let f1 = [Int32 (databaseVersion env)];
                   (ok1, w1) = projectSave env key
               in if \<not> ok1 then files(path \<mapsto> f1 @ w1)
                  else
                    (let (ok2, w2) = indexerSave env ix
                     in files(path \<mapsto> f1 @ w1 @ w2)))))"

definition save ::
  "saveEnv \<Rightarrow> indexer \<Rightarrow> (string \<times> project) list \<Rightarrow> (string \<rightharpoonup> blobItem list)
   \<Rightarrow> (string \<rightharpoonup> blobItem list)" where
  "save env ix projs files =
     (if \<not> mkdirOk env then files
      else
        (let p = dataDir env @ ''fileids''
         in if \<not> canOpen env p then files
            else saveProject env ix projs
                   (files(p \<mapsto> [Int32 (databaseVersion env), PathsToIds (pathsToIds env)]))))"

text \<open>
  \<^verbatim>\<open>saveTimerCallback(id, userData)\<close>: remove the timer, then save the indexer that the
  user data holds.
\<close>

definition saveTimerCallback ::
  "saveEnv \<Rightarrow> int \<Rightarrow> indexer \<Rightarrow> (string \<times> project) list
   \<Rightarrow> persistence \<times> (string \<rightharpoonup> blobItem list) \<Rightarrow> persistence \<times> (string \<rightharpoonup> blobItem list)" where
  "saveTimerCallback env tid ix projs st =
     (removeTimer tid (fst st), save env ix projs (snd st))"

text \<open>The first entry of the registry that holds the indexer: the one \<open>save\<close> writes.\<close>

fun projectOf :: "indexer \<Rightarrow> (string \<times> project) list \<Rightarrow> string option" where
  "projectOf ix [] = None"
| "projectOf ix ((key, p) # rest) =
     (if projectIndexer p = Some ix then Some key else projectOf ix rest)"

subsection \<open>Binding the socket: the retry loop of \<^verbatim>\<open>Server::init\<close>\<close>

text \<open>
  \<^verbatim>\<open>LocalServer::listen\<close>, the client's message, \<^verbatim>\<open>sleep\<close> and \<^verbatim>\<open>Path::rm\<close> act on
  the world outside the process: a value of any type \<open>'w\<close>, with a record of what they do
  to it. \<open>listenOk\<close> tells whether \<^verbatim>\<open>listen\<close> binds in a world, \<open>bound\<close> is the world
  with the server bound. The loop also notes what it does, in order.
\<close>

datatype initAction = Listen | SendShutdown | Sleep | RemoveSocket

record 'w socketEnv =
  listenOk :: "'w \<Rightarrow> bool"
  bound :: "'w \<Rightarrow> 'w"
  shutdownSent :: "'w \<Rightarrow> 'w"
  slept :: "'w \<Rightarrow> 'w"
  socketRemoved :: "'w \<Rightarrow> 'w"

text \<open>
  \<^verbatim>\<open>for (int i=0; i<10; ++i)\<close>: the state is \<open>i\<close>, the world and the actions so far; the
  result tells whether \<^verbatim>\<open>mServer\<close> is set after the loop.
\<close>

function listenLoop ::
  "'w socketEnv \<Rightarrow> nat \<Rightarrow> 'w \<Rightarrow> initAction list \<Rightarrow> bool \<times> 'w \<times> initAction list" where
  "listenLoop env i w acts =
     (if i < 10
      then
        (if listenOk env w then (True, bound env w, acts @ [Listen])
         else
           (let (w1, acts1) = (if i = 0 then (shutdownSent env w, acts @ [Listen, SendShutdown])
                               else (w, acts @ [Listen]));
                w2 = slept env w1;
                w3 = socketRemoved env w2
            in listenLoop env (i + 1) w3 (acts1 @ [Sleep, RemoveSocket])))
      else (False, w, acts))"
  by pat_completeness auto
termination
  by (relation "measure (\<lambda>(env, i, w, acts). 10 - i)") auto

text \<open>
  \<^verbatim>\<open>Server::init\<close> from the loop on: it returns false when \<^verbatim>\<open>mServer\<close> is null after
  the loop, and true otherwise (after \<^verbatim>\<open>restore()\<close> and \<^verbatim>\<open>reloadProjects()\<close>, which
  do not decide the result).
\<close>

definition init :: "'w socketEnv \<Rightarrow> 'w \<Rightarrow> bool \<times> 'w \<times> initAction list" where
  "init env w = listenLoop env 0 w []"

text \<open>
  What a failed attempt \<open>i\<close> does to the world and which actions it makes; the world before
  attempt \<open>k\<close> when all attempts before it failed, and the actions up to then.
\<close>

definition failedAttempt :: "'w socketEnv \<Rightarrow> nat \<Rightarrow> 'w \<Rightarrow> 'w" where
  "failedAttempt env i w =
     socketRemoved env (slept env (if i = 0 then shutdownSent env w else w))"

definition failedActions :: "nat \<Rightarrow> initAction list" where
  "failedActions i =
     (if i = 0 then [Listen, SendShutdown, Sleep, RemoveSocket] else [Listen, Sleep, RemoveSocket])"

fun worldBefore :: "'w socketEnv \<Rightarrow> 'w \<Rightarrow> nat \<Rightarrow> 'w" where
  "worldBefore env w 0 = w"
| "worldBefore env w (Suc k) = failedAttempt env k (worldBefore env w k)"

fun actionsBefore :: "nat \<Rightarrow> initAction list" where
  "actionsBefore 0 = []"
| "actionsBefore (Suc k) = actionsBefore k @ failedActions k"

text \<open>
  For examples: a world that is just whether a stale socket file is in the way; listening
  binds when there is none, and removing the socket file clears it.
\<close>

definition staleSocketEnv :: "bool socketEnv" where
  "staleSocketEnv =
     \<lparr>listenOk = (\<lambda>stale. \<not> stale), bound = (\<lambda>stale. stale), shutdownSent = (\<lambda>stale. stale),
      slept = (\<lambda>stale. stale), socketRemoved = (\<lambda>stale. False)\<rparr>"

subsection \<open>Source-root discovery: \<^verbatim>\<open>findAncestor\<close> and \<^verbatim>\<open>findProjectRoot\<close>\<close>



text \<open>
  \<^verbatim>\<open>fnmatch(pattern, string, 0)\<close> for patterns made of literal characters, \<^verbatim>\<open>?\<close> and
  \<^verbatim>\<open>*\<close>, which is what the marker table holds (no bracket, no backslash). With no flag
  set, \<^verbatim>\<open>*\<close> and \<^verbatim>\<open>?\<close> also match a slash and a leading period.
\<close>

fun fnmatch :: "string \<Rightarrow> string \<Rightarrow> bool" where
  "fnmatch [] [] = True"
| "fnmatch [] (c # s) = False"
| "fnmatch (p # ps) [] = (p = CHR ''*'' \<and> fnmatch ps [])"
| "fnmatch (p # ps) (c # s) =
     (if p = CHR ''*'' then fnmatch ps (c # s) \<or> fnmatch (p # ps) s
      else if p = CHR ''?'' then fnmatch ps s
      else p = c \<and> fnmatch ps s)"
















subsection \<open>Example inputs\<close>

text \<open>
  Two projects, one rooted at \<^verbatim>\<open>/a/\<close> and one below it at \<^verbatim>\<open>/a/b/\<close>, in a registry
  whose current project is the first, and in one that has no current project.
\<close>

definition projectA :: project where
  "projectA = \<lparr>srcRoot = ''/a/'', resolvedSrcRoot = ''/a/'', isValid = True,
     projectIndexer = Some 1, indexedFiles = [5], fileManager = Some [''/a/b'']\<rparr>"

definition projectAB :: project where
  "projectAB = \<lparr>srcRoot = ''/a/b/'', resolvedSrcRoot = ''/a/b/'', isValid = True,
     projectIndexer = Some 2, indexedFiles = [6], fileManager = Some [''/a/b'']\<rparr>"

definition registryCurrentA :: registry where
  "registryCurrentA =
     \<lparr>mProjects = [(''/a/Makefile'', projectA), (''/a/b/Makefile'', projectAB)],
      mCurrentProject = Some ''/a/Makefile'', remakes = []\<rparr>"

definition registryNoCurrent :: registry where
  "registryNoCurrent =
     \<lparr>mProjects = [(''/a/Makefile'', projectA), (''/a/b/Makefile'', projectAB)],
      mCurrentProject = None, remakes = []\<rparr>"

text \<open>
  Surroundings for \<open>save\<close> in which everything can be opened; \<^verbatim>\<open>Project::save\<close>
  succeeds or fails part-way as the argument says. And a world in which \<^verbatim>\<open>listen\<close>
  never binds.
\<close>

definition exampleSaveEnv :: "bool \<Rightarrow> saveEnv" where
  "exampleSaveEnv projectSaves =
     \<lparr>dataDir = ''/d/'', databaseVersion = 7, mkdirOk = True, canOpen = (\<lambda>p. True),
      encodePath = map (\<lambda>c. if c = CHR ''/'' then CHR ''_'' else c),
      pathsToIds = [(''/a/x.c'', 1)],
      projectSave = (\<lambda>key. if projectSaves then (True, [Bytes ''project''])
                             else (False, [Bytes ''pro''])),
      indexerSave = (\<lambda>ix. (True, [Bytes ''indexer'']))\<rparr>"

definition neverBindsEnv :: "unit socketEnv" where
  "neverBindsEnv =
     \<lparr>listenOk = (\<lambda>w. False), bound = (\<lambda>w. w), shutdownSent = (\<lambda>w. w),
      slept = (\<lambda>w. w), socketRemoved = (\<lambda>w. w)\<rparr>"




section \<open>Theorems\<close>

subsection \<open>Job ids\<close>

lemma sint_succ_int32:
  fixes j :: int32
  assumes "sint j \<noteq> 2147483647"
  shows "sint (j + 1) = sint j + 1"
proof -
  have lo: "- (2 ^ 31) \<le> sint j" using sint_ge [of j] by simp
  have hi: "sint j < 2 ^ 31" using sint_lt [of j] by simp
  from assms lo hi show ?thesis
    by (simp add: sint_word_ariths signed_take_bit_int_eq_self)
qed

lemma nextId_returns_counter: "fst (nextId j) = snd (nextId j)"
  by (simp add: nextId_def Let_def)

lemma nextId_nonzero: "fst (nextId j) \<noteq> 0"
  by (simp add: nextId_def Let_def)

lemma nextId_increases:
  assumes "sint j \<noteq> 2147483647"
  shows "sint j < sint (fst (nextId j))"
proof (cases "j + 1 = 0")
  case True
  then have "sint (j + 1) = 0" by simp
  with sint_succ_int32 [OF assms] have "sint j = - 1" by simp
  moreover from True have "fst (nextId j) = 1" by (simp add: nextId_def Let_def)
  ultimately show ?thesis by simp
next
  case False
  then have "fst (nextId j) = j + 1" by (simp add: nextId_def Let_def)
  with sint_succ_int32 [OF assms] show ?thesis by simp
qed

text \<open>
  From the constructor's 0 the counter reaches every positive value of an \<^verbatim>\<open>int\<close>:
  after \<open>n\<close> calls it is \<open>n\<close>, up to 2147483647.
\<close>

lemma nextId_counts:
  "n < 2147483648 \<Longrightarrow> ((\<lambda>j. snd (nextId j)) ^^ n) 0 = of_nat n"
proof (induction n)
  case 0 show ?case by simp
next
  case (Suc n)
  then have ih: "((\<lambda>j. snd (nextId j)) ^^ n) 0 = of_nat n" by simp
  have "(of_nat (Suc n) :: int32) \<noteq> 0"
    using Suc.prems by (intro of_nat_neq_0) simp_all
  then have "(of_nat n :: int32) + 1 \<noteq> 0" by (simp add: add.commute)
  then have "snd (nextId (of_nat n)) = of_nat (Suc n)"
    by (simp add: nextId_def Let_def add.commute)
  with ih show ?case by simp
qed

text \<open>
  C5, as the code has it. Two successive calls return \<open>r1\<close> and then \<open>r2\<close>. Neither
  is 0, and \<open>r2\<close> is greater than \<open>r1\<close> as a signed 32-bit value unless \<open>r1\<close> is the
  greatest one, 2147483647, where the counter wraps around.
\<close>

theorem nextId_nonzero_increasing_until_wrap:
  assumes "nextId s0 = (r1, s1)" and "nextId s1 = (r2, s2)"
  shows "r1 \<noteq> 0 \<and> r2 \<noteq> 0 \<and> (sint r1 \<noteq> 2147483647 \<longrightarrow> sint r1 < sint r2)"
proof -
  from assms(1) have r1: "r1 = fst (nextId s0)" and s1: "s1 = r1"
    using nextId_returns_counter [of s0] by simp_all
  from assms(2) have r2: "r2 = fst (nextId s1)" by simp
  show ?thesis
    using nextId_nonzero [of s0] nextId_nonzero [of s1] nextId_increases [of r1]
    by (simp add: r1 [symmetric] r2 s1)
qed

theorem nextId_nonzero_increasing_until_wrap_witness:
  "nextId 0 = (1, 1) \<and> nextId 1 = (2, 2) \<and> (1 :: int32) \<noteq> 0 \<and> (2 :: int32) \<noteq> 0
   \<and> sint (1 :: int32) \<noteq> 2147483647 \<and> sint (1 :: int32) < sint (2 :: int32)"
proof -
  have a: "nextId 0 = (1, 1)" by (simp add: nextId_def Let_def)
  have b: "nextId 1 = (2, 2)" by (simp add: nextId_def Let_def)
  show ?thesis using nextId_nonzero_increasing_until_wrap [OF a b] a b by simp
qed

text \<open>
  C5 as stated fails where the counter wraps: the call that follows the one returning
  2147483647 returns -2147483648, which is smaller.
\<close>

theorem nextId_wrap_counterexample:
  "nextId 2147483646 = (2147483647, 2147483647)
   \<and> nextId 2147483647 = (2147483648, 2147483648)
   \<and> sint (2147483647 :: int32) = 2147483647
   \<and> sint (2147483648 :: int32) = - 2147483648
   \<and> \<not> sint (2147483647 :: int32) < sint (2147483648 :: int32)"
  by (simp add: nextId_def Let_def)

subsection \<open>Hashes\<close>

lemma keys_hashModify: "fst ` set (hashModify k f d h) = insert k (fst ` set h)"
proof (induction h)
  case Nil show ?case by simp
next
  case (Cons e h)
  obtain k' v where e: "e = (k', v)" by (cases e)
  show ?case
  proof (cases "k' = k")
    case True then show ?thesis by (simp add: e)
  next
    case False with Cons show ?thesis by (simp add: e insert_commute)
  qed
qed

lemma distinct_hashModify:
  "distinct (map fst h) \<Longrightarrow> distinct (map fst (hashModify k f d h))"
proof (induction h)
  case Nil show ?case by simp
next
  case (Cons e h)
  obtain k' v where e: "e = (k', v)" by (cases e)
  show ?case
  proof (cases "k' = k")
    case True with Cons.prems show ?thesis by (simp add: e)
  next
    case False with Cons keys_hashModify [of k f d h] show ?thesis by (simp add: e)
  qed
qed

lemma hashValue_Nil: "hashValue d [] k = d"
  by (simp add: hashValue_def)

lemma hashValue_Cons: "hashValue d ((k', v) # h) k = (if k' = k then v else hashValue d h k)"
  by (simp add: hashValue_def)

lemma hashValue_hashModify:
  "hashValue d (hashModify k f d h) k' =
     (if k' = k then f (hashValue d h k) else hashValue d h k')"
proof (induction h)
  case Nil show ?case by (simp add: hashValue_Nil hashValue_Cons)
next
  case (Cons e h)
  obtain k'' v where e: "e = (k'', v)" by (cases e)
  show ?case
  proof (cases "k'' = k")
    case True then show ?thesis by (simp add: e hashValue_Cons)
  next
    case False
    note ne = this
    show ?thesis
    proof (cases "k' = k")
      case True with Cons ne show ?thesis by (simp add: e hashValue_Cons)
    next
      case False with Cons ne show ?thesis by (simp add: e hashValue_Cons)
    qed
  qed
qed

lemma hashValue_map_of: "map_of h k = Some v \<Longrightarrow> hashValue d h k = v"
  by (simp add: hashValue_def)

lemma hashValue_absent: "k \<notin> fst ` set h \<Longrightarrow> hashValue d h k = d"
  by (simp add: hashValue_def map_of_eq_None_iff [THEN iffD2])

lemma key_has_value: "k \<in> fst ` set h \<Longrightarrow> \<exists>v. map_of h k = Some v"
  by (metis domD dom_map_of_conv_image_fst)

subsection \<open>Symbol names: staging and the writer's block\<close>

lemma addTo_eq: "addTo c v = (fcard (c |\<union>| v) \<noteq> fcard c, c |\<union>| v)"
  by (simp add: addTo_def Let_def)

lemma addTo_grew: "fst (addTo c v) \<longleftrightarrow> \<not> v |\<subseteq>| c"
proof (cases "v |\<subseteq>| c")
  case True
  then have "c |\<union>| v = c" by auto
  with True show ?thesis by (simp add: addTo_eq)
next
  case False
  then have "c |\<subset>| c |\<union>| v" by auto
  then have "fcard c < fcard (c |\<union>| v)" by (rule pfsubset_fcard_mono)
  with False show ?thesis by (simp add: addTo_eq)
qed

lemma fold_funion: "fold (|\<union>|) xs (a :: 'a fset) = a |\<union>| fold (|\<union>|) xs {||}"
proof (induction xs arbitrary: a)
  case Nil show ?case by simp
next
  case (Cons x xs)
  from Cons.IH [of "x |\<union>| a"] Cons.IH [of x] show ?case by auto
qed

lemma entriesFor_Nil: "entriesFor [] k = {||}"
  by (simp add: entriesFor_def)

lemma entriesFor_Cons:
  "entriesFor ((k', v) # c) k = (if k' = k then v |\<union>| entriesFor c k else entriesFor c k)"
  using fold_funion [of "map snd (filter (\<lambda>e. fst e = k) c)" "v |\<union>| {||}"]
  by (simp add: entriesFor_def)

lemma entriesFor_append: "entriesFor (c @ d) k = entriesFor c k |\<union>| entriesFor d k"
  by (induction c) (auto simp: entriesFor_Nil entriesFor_Cons)

lemma entriesFor_absent: "k \<notin> fst ` set c \<Longrightarrow> entriesFor c k = {||}"
  by (induction c) (auto simp: entriesFor_Nil entriesFor_Cons)

lemma stagedFor_Nil: "stagedFor [] k = {||}"
  by (simp add: stagedFor_def entriesFor_Nil)

lemma stagedFor_Cons: "stagedFor (c # calls) k = entriesFor c k |\<union>| stagedFor calls k"
  by (simp add: stagedFor_def entriesFor_append)

lemma hashValue_distinct: "distinct (map fst c) \<Longrightarrow> hashValue {||} c k = entriesFor c k"
  by (induction c)
     (auto simp: hashValue_Nil hashValue_Cons entriesFor_Nil entriesFor_Cons entriesFor_absent)

lemma fold_hashModify_union:
  "distinct (map fst m) \<Longrightarrow>
   distinct (map fst (fold (\<lambda>(k, v). hashModify k (\<lambda>s. s |\<union>| v) {||}) c m))
   \<and> hashValue {||} (fold (\<lambda>(k, v). hashModify k (\<lambda>s. s |\<union>| v) {||}) c m) k
       = hashValue {||} m k |\<union>| entriesFor c k"
proof (induction c arbitrary: m)
  case Nil then show ?case by (simp add: entriesFor_Nil)
next
  case (Cons e c)
  obtain k' v where e: "e = (k', v)" by (cases e)
  have d: "distinct (map fst (hashModify k' (\<lambda>s. s |\<union>| v) {||} m))"
    using Cons.prems by (rule distinct_hashModify)
  from Cons.IH [OF d] show ?case
    by (auto simp: e hashValue_hashModify entriesFor_Cons)
qed

lemma addSymbolNames_staged:
  assumes "distinct (map fst m)" and "distinct (map fst c)"
  shows "distinct (map fst (addSymbolNames c m))
         \<and> hashValue {||} (addSymbolNames c m) k = hashValue {||} m k |\<union>| entriesFor c k"
proof (cases "m = []")
  case True
  with assms(2) show ?thesis
    by (simp add: addSymbolNames_def hashValue_distinct hashValue_Nil)
next
  case False
  with fold_hashModify_union [OF assms(1), of c k] show ?thesis
    by (simp add: addSymbolNames_def)
qed

lemma fold_addSymbolNames:
  "distinct (map fst m) \<Longrightarrow> list_all (\<lambda>c. distinct (map fst c)) calls \<Longrightarrow>
   distinct (map fst (fold addSymbolNames calls m))
   \<and> hashValue {||} (fold addSymbolNames calls m) k = hashValue {||} m k |\<union>| stagedFor calls k"
proof (induction calls arbitrary: m)
  case Nil then show ?case by (simp add: stagedFor_Nil)
next
  case (Cons c calls)
  from Cons.prems have dc: "distinct (map fst c)" by simp
  note st = addSymbolNames_staged [OF Cons.prems(1) dc]
  from st have d: "distinct (map fst (addSymbolNames c m))" by simp
  from Cons.prems have rest: "list_all (\<lambda>c. distinct (map fst c)) calls" by simp
  from Cons.IH [OF d rest] st [of k] show ?case
    by (auto simp: stagedFor_Cons)
qed

lemma symbolNamesLoop_batch:
  "distinct (map fst staged) \<Longrightarrow>
   snd (symbolNamesLoop db staged (ch, b)) k =
     (if k \<in> fst ` set staged \<and> \<not> hashValue {||} staged k |\<subseteq>| readValue db k
      then Some (readValue db k |\<union>| hashValue {||} staged k) else b k)"
proof (induction staged arbitrary: ch b)
  case Nil show ?case by simp
next
  case (Cons e staged)
  obtain key added where e: "e = (key, added)" by (cases e)
  from Cons.prems have d: "distinct (map fst staged)" and nk: "key \<notin> fst ` set staged"
    by (auto simp: e)
  define g where "g = fst (addTo (readValue db key) added)"
  define cur where "cur = readValue db key |\<union>| added"
  have a: "addTo (readValue db key) added = (g, cur)" by (simp add: g_def cur_def addTo_eq)
  have g: "g \<longleftrightarrow> \<not> added |\<subseteq>| readValue db key" unfolding g_def by (rule addTo_grew)
  have lk: "hashValue {||} (e # staged) k = (if key = k then added else hashValue {||} staged k)"
    by (simp add: e hashValue_Cons)
  have ks: "k \<in> fst ` set (e # staged) \<longleftrightarrow> k = key \<or> k \<in> fst ` set staged"
    by (auto simp: e)
  show ?case
  proof (cases g)
    case True
    then have step: "symbolNamesLoop db (e # staged) (ch, b)
        = symbolNamesLoop db staged (True, b(key \<mapsto> cur))" using a by (simp add: e)
    show ?thesis
    proof (cases "k = key")
      case True
      with nk have "k \<notin> fst ` set staged" by simp
      with True \<open>g\<close> g show ?thesis
        unfolding step Cons.IH [OF d] lk ks by (simp add: cur_def)
    next
      case False
      then show ?thesis unfolding step Cons.IH [OF d] lk ks by auto
    qed
  next
    case False
    then have step: "symbolNamesLoop db (e # staged) (ch, b)
        = symbolNamesLoop db staged (ch, b)" using a by (simp add: e)
    show ?thesis
    proof (cases "k = key")
      case True
      with nk have "k \<notin> fst ` set staged" by simp
      with True \<open>\<not> g\<close> g show ?thesis
        unfolding step Cons.IH [OF d] lk ks by simp
    next
      case False
      then show ?thesis unfolding step Cons.IH [OF d] lk ks by auto
    qed
  qed
qed

lemma symbolNamesLoop_changed: "fst (symbolNamesLoop db staged (True, b))"
proof (induction staged arbitrary: b)
  case Nil show ?case by simp
next
  case (Cons e staged)
  obtain key added where e: "e = (key, added)" by (cases e)
  from Cons show ?case by (simp add: e split: prod.splits bool.splits)
qed

lemma symbolNamesLoop_unchanged:
  "\<not> fst (symbolNamesLoop db staged (ch, b)) \<Longrightarrow> snd (symbolNamesLoop db staged (ch, b)) = b"
proof (induction staged arbitrary: ch b)
  case Nil show ?case by simp
next
  case (Cons e staged)
  obtain key added where e: "e = (key, added)" by (cases e)
  obtain g cur where a: "addTo (readValue db key) added = (g, cur)"
    by (cases "addTo (readValue db key) added")
  show ?case
  proof (cases g)
    case True
    with Cons.prems a symbolNamesLoop_changed [of db staged "b(key \<mapsto> cur)"] show ?thesis
      by (simp add: e)
  next
    case False
    with Cons.prems a Cons.IH [of ch b] show ?thesis by (simp add: e)
  qed
qed

text \<open>
  C3. The producers' calls \<open>calls\<close> fill an empty staging map, each argument a hash (its
  keys distinct); the writer then runs its symbol-names block on it, the store opening. The
  block returns a store in which each key holds what it held before united with all the sets
  staged for it, and it puts a key into the batch only if that union is strictly larger
  than what the store held.
\<close>

theorem symbolNames_cycle_union:
  assumes "list_all (\<lambda>c. distinct (map fst c)) calls"
  shows "\<exists>db'. symbolNamesPhase True db (fold addSymbolNames calls []) = Some db'
           \<and> readValue db' k = readValue db k |\<union>| stagedFor calls k
           \<and> (symbolNamesBatch db (fold addSymbolNames calls []) k \<noteq> None
                \<longrightarrow> readValue db k |\<subset>| readValue db k |\<union>| stagedFor calls k)"
proof -
  let ?staged = "fold addSymbolNames calls []"
  from fold_addSymbolNames [OF _ assms, of "[]" k]
  have d: "distinct (map fst ?staged)" and l: "hashValue {||} ?staged k = stagedFor calls k"
    by (simp_all add: hashValue_Nil)
  obtain ch b where r: "symbolNamesLoop db ?staged (False, Map.empty) = (ch, b)"
    by (cases "symbolNamesLoop db ?staged (False, Map.empty)")
  from symbolNamesLoop_batch [OF d, of db False Map.empty k] r l
  have b: "b k = (if k \<in> fst ` set ?staged \<and> \<not> stagedFor calls k |\<subseteq>| readValue db k
      then Some (readValue db k |\<union>| stagedFor calls k) else None)" by simp
  from symbolNamesLoop_unchanged [of db ?staged False Map.empty] r
  have u: "\<not> ch \<Longrightarrow> b = Map.empty" by simp
  have abs: "k \<notin> fst ` set ?staged \<Longrightarrow> stagedFor calls k = {||}"
    using l hashValue_absent [of k ?staged "{||}"] by simp
  have issued: "symbolNamesBatch db ?staged k \<noteq> None
      \<longrightarrow> readValue db k |\<subset>| readValue db k |\<union>| stagedFor calls k"
    using b r by (auto simp: symbolNamesBatch_def split: if_splits)
  have stored: "\<exists>db'. symbolNamesPhase True db ?staged = Some db'
      \<and> readValue db' k = readValue db k |\<union>| stagedFor calls k"
  proof (cases "?staged = []")
    case True
    with l show ?thesis by (auto simp: symbolNamesPhase_def hashValue_Nil)
  next
    case False
    show ?thesis
    proof (cases ch)
      case True
      with False r b abs show ?thesis
        by (auto simp: symbolNamesPhase_def readValue_def map_add_def split: option.splits)
    next
      case False
      note nch = this
      with u have "b k = None" by simp
      with b abs have "stagedFor calls k |\<subseteq>| readValue db k" by (auto split: if_splits)
      then have "readValue db k |\<union>| stagedFor calls k = readValue db k" by auto
      with \<open>?staged \<noteq> []\<close> r nch show ?thesis by (simp add: symbolNamesPhase_def)
    qed
  qed
  from stored issued show ?thesis by blast
qed

theorem symbolNames_cycle_union_witness:
  "list_all (\<lambda>c. distinct (map fst c))
     [[(''f'', {|Location 1 10|})], [(''f'', {|Location 1 20|}), (''g'', {|Location 1 10|})]]
   \<and> (\<exists>db'. symbolNamesPhase True [''f'' \<mapsto> {|Location 1 10|}]
               (fold addSymbolNames
                  [[(''f'', {|Location 1 10|})],
                   [(''f'', {|Location 1 20|}), (''g'', {|Location 1 10|})]] []) = Some db'
            \<and> readValue db' ''f'' = {|Location 1 10, Location 1 20|})
   \<and> symbolNamesBatch [''f'' \<mapsto> {|Location 1 10|}]
        (fold addSymbolNames
           [[(''f'', {|Location 1 10|})],
            [(''f'', {|Location 1 20|}), (''g'', {|Location 1 10|})]] []) ''f'' \<noteq> None
   \<and> {|Location 1 10|} |\<subset>| {|Location 1 10, Location 1 20|}"
proof -
  let ?calls = "[[(''f'', {|Location 1 10|})],
                 [(''f'', {|Location 1 20|}), (''g'', {|Location 1 10|})]]"
  let ?db = "[''f'' \<mapsto> {|Location 1 10|}]"
  have h: "list_all (\<lambda>c. distinct (map fst c)) ?calls" by simp
  have s: "stagedFor ?calls ''f'' = {|Location 1 10, Location 1 20|}"
    by (auto simp: stagedFor_def entriesFor_def)
  have r: "readValue ?db ''f'' = {|Location 1 10|}" by (simp add: readValue_def)
  have u: "{|Location 1 10|} |\<union>| {|Location 1 10, Location 1 20|}
      = {|Location 1 10, Location 1 20|}" by auto
  have b: "symbolNamesBatch ?db (fold addSymbolNames ?calls []) ''f'' \<noteq> None"
    by (simp add: symbolNamesBatch_def addSymbolNames_def addTo_eq readValue_def
        fcard_finsert_if)
  from symbolNames_cycle_union [OF h, of ?db "''f''"] b h show ?thesis
    unfolding s r u by blast
qed

subsection \<open>References and symbols: the writer's blocks\<close>

lemma symbolsGrow_refl: "symbolsGrow s s"
  by (simp add: symbolsGrow_def)

lemma symbolsGrow_trans: "symbolsGrow s s' \<Longrightarrow> symbolsGrow s' s'' \<Longrightarrow> symbolsGrow s s''"
  unfolding symbolsGrow_def by (metis (no_types, lifting) order_trans)

lemma symbolsGrow_modify:
  assumes "\<And>c. references c |\<subseteq>| references (f c)"
    and "\<And>c. \<not> isNull (target c) \<Longrightarrow> target (f c) = target c"
  shows "symbolsGrow s (hashModify k f emptyCursorInfo s)"
  unfolding symbolsGrow_def
  using assms by (auto simp: keys_hashModify hashValue_hashModify)

lemma addRefs_simps [simp]:
  "references (addRefs locs c) = references c |\<union>| locs"
  "target (addRefs locs c) = target c"
  by (simp_all add: addRefs_def)

lemma referenceInMemory_grow: "symbolsGrow syms (referenceInMemory from to rt syms)"
proof -
  have a: "\<And>locs s k. symbolsGrow s (hashModify k (addRefs locs) emptyCursorInfo s)"
    by (rule symbolsGrow_modify) auto
  have b: "\<And>s k. symbolsGrow s (hashModify k id emptyCursorInfo s)"
    by (rule symbolsGrow_modify) auto
  have c: "\<And>s k. isNull (target (ciAt s k)) \<Longrightarrow>
      symbolsGrow s (hashModify k (\<lambda>other. other\<lparr>target := to\<rparr>) emptyCursorInfo s)"
    unfolding symbolsGrow_def by (auto simp: keys_hashModify hashValue_hashModify)
  show ?thesis
    unfolding referenceInMemory_def Let_def
    by (auto intro: a b c symbolsGrow_trans [OF a] symbolsGrow_trans [OF a symbolsGrow_trans [OF b]]
        symbolsGrow_trans [OF a symbolsGrow_trans [OF b symbolsGrow_trans [OF a]]]
        symbolsGrow_trans [OF a symbolsGrow_trans [OF b symbolsGrow_trans [OF a symbolsGrow_trans [OF a]]]])
qed


lemma referenceInMemory_distinct:
  "distinct (map fst syms) \<Longrightarrow> distinct (map fst (referenceInMemory from to rt syms))"
  unfolding referenceInMemory_def Let_def by (simp add: distinct_hashModify)

lemma linked_grow: "linked s from to \<Longrightarrow> symbolsGrow s s' \<Longrightarrow> linked s' from to"
  unfolding linked_def symbolsGrow_def by (metis (no_types, lifting) fsubsetD subsetD)

lemma referenceInMemory_linked:
  assumes "rt \<noteq> NormalReference" and "\<not> isNull to"
  shows "linked (referenceInMemory from to rt syms) from to"
  using assms unfolding linked_def referenceInMemory_def Let_def
  by (simp add: keys_hashModify hashValue_hashModify)


lemma covers_refl: "covers c c"
  by (simp add: covers_def)

lemma covers_trans: "covers a b \<Longrightarrow> covers b c \<Longrightarrow> covers a c"
  unfolding covers_def by auto

lemma openSymbolDB_True: "openSymbolDB True st = Some (st\<lparr>symbolDBOpen := True\<rparr>)"
  by (cases st) (simp add: openSymbolDB_def)

lemma writeValue_symbols [simp]: "symbols (writeValue k v st) = symbols st"
  by (simp add: writeValue_def)

lemma writeValue_batchAbove:
  "batchAbove db st \<Longrightarrow> covers (readCursorInfo db k) v \<Longrightarrow> batchAbove db (writeValue k v st)"
  by (simp add: batchAbove_def writeValue_def)

lemma backLinkInDB_covers:
  assumes "backLinkInDB db from to current = (current', c3, other, changedOther)"
  shows "covers current current' \<and> covers (readCursorInfo db from) other"
  using assms by (auto simp: backLinkInDB_def addTo_eq Let_def covers_def split: if_splits)

lemma referenceInDB_symbols: "symbols (referenceInDB db from to rt st) = symbols st"
proof (cases "rt = NormalReference")
  case True
  then show ?thesis by (simp add: referenceInDB_def addTo_eq Let_def)
next
  case False
  then show ?thesis
    by (cases "backLinkInDB db from to
          ((readCursorInfo db to)\<lparr>references := references (readCursorInfo db to) |\<union>| {|from|}\<rparr>)")
       (simp add: referenceInDB_def addTo_eq Let_def)
qed

lemma referenceInDB_batchAbove:
  assumes "batchAbove db st"
  shows "batchAbove db (referenceInDB db from to rt st)"
proof -
  define cur0 where "cur0 = (readCursorInfo db to)\<lparr>references := references (readCursorInfo db to) |\<union>| {|from|}\<rparr>"
  have c0: "covers (readCursorInfo db to) cur0" by (auto simp: cur0_def covers_def)
  show ?thesis
  proof (cases "rt = NormalReference")
    case True
    with assms c0 show ?thesis
      by (simp add: referenceInDB_def Let_def addTo_eq cur0_def writeValue_batchAbove)
  next
    case False
    obtain current' c3 other changedOther
      where bl: "backLinkInDB db from to cur0 = (current', c3, other, changedOther)"
      by (cases "backLinkInDB db from to cur0") auto
    from backLinkInDB_covers [OF bl] c0
    have c1: "covers (readCursorInfo db to) current'" and c2: "covers (readCursorInfo db from) other"
      by (auto intro: covers_trans)
    have st1: "batchAbove db (if changedOther then writeValue from other st else st)"
      using assms c2 by (simp add: writeValue_batchAbove)
    from False bl [unfolded cur0_def] st1 c1 show ?thesis
      by (simp add: referenceInDB_def Let_def addTo_eq writeValue_batchAbove)
  qed
qed


lemma referenceStep_total: "\<exists>st'. referenceStep True db e st = Some st'"
  by (cases e) (simp add: referenceStep_def openSymbolDB_True split: option.splits)

lemma referenceStep_grow:
  assumes "referenceStep opens db e st = Some st'"
  shows "symbolsGrow (symbols st) (symbols st')"
proof -
  obtain src dst rt where e: "e = (src, dst, rt)" by (cases e)
  show ?thesis
  proof (cases "map_of (symbols st) dst")
    case None
    with assms show ?thesis
      by (auto simp: e referenceStep_def openSymbolDB_def referenceInDB_symbols symbolsGrow_refl
          split: option.splits if_splits)
  next
    case (Some ci)
    with assms show ?thesis
      by (auto simp: e referenceStep_def referenceInMemory_grow)
  qed
qed

lemma referenceStep_distinct:
  assumes "referenceStep opens db e st = Some st'" and "distinct (map fst (symbols st))"
  shows "distinct (map fst (symbols st'))"
proof -
  obtain src dst rt where e: "e = (src, dst, rt)" by (cases e)
  show ?thesis
  proof (cases "map_of (symbols st) dst")
    case None
    with assms show ?thesis
      by (auto simp: e referenceStep_def openSymbolDB_def referenceInDB_symbols
          split: option.splits if_splits)
  next
    case (Some ci)
    with assms show ?thesis
      by (auto simp: e referenceStep_def referenceInMemory_distinct)
  qed
qed

lemma referenceStep_batchAbove:
  assumes "referenceStep opens db e st = Some st'" and "batchAbove db st"
  shows "batchAbove db st'"
proof -
  obtain src dst rt where e: "e = (src, dst, rt)" by (cases e)
  have o: "\<And>st1. openSymbolDB opens st = Some st1 \<Longrightarrow> batchAbove db st1"
    using assms(2) by (auto simp: openSymbolDB_def batchAbove_def split: if_splits)
  show ?thesis
  proof (cases "map_of (symbols st) dst")
    case None
    with assms(1) o show ?thesis
      by (auto simp: e referenceStep_def referenceInDB_batchAbove split: option.splits)
  next
    case (Some ci)
    with assms show ?thesis
      by (auto simp: e referenceStep_def batchAbove_def)
  qed
qed

lemma referenceStep_linked:
  assumes "referenceStep opens db (from, to, rt) st = Some st'"
    and "to \<in> fst ` set (symbols st)" and "rt \<noteq> NormalReference" and "\<not> isNull to"
  shows "linked (symbols st') from to"
proof -
  from assms(2) obtain ci where "map_of (symbols st) to = Some ci"
    by (metis domD dom_map_of_conv_image_fst)
  with assms(1) have "symbols st' = referenceInMemory from to rt (symbols st)"
    by (auto simp: referenceStep_def)
  with referenceInMemory_linked [OF assms(3,4)] show ?thesis by simp
qed

lemma referencesLoop_total: "\<exists>st'. referencesLoop True db es st = Some st'"
proof (induction es arbitrary: st)
  case Nil show ?case by simp
next
  case (Cons e es)
  from referenceStep_total [of db e st] obtain st1 where "referenceStep True db e st = Some st1" ..
  with Cons [of st1] show ?case by simp
qed

lemma referencesLoop_invariants:
  "referencesLoop opens db es st = Some st' \<Longrightarrow>
   symbolsGrow (symbols st) (symbols st')
   \<and> (distinct (map fst (symbols st)) \<longrightarrow> distinct (map fst (symbols st')))
   \<and> (batchAbove db st \<longrightarrow> batchAbove db st')"
proof (induction es arbitrary: st)
  case Nil then show ?case by (simp add: symbolsGrow_refl)
next
  case (Cons e es)
  from Cons.prems obtain st1 where s1: "referenceStep opens db e st = Some st1"
    and l: "referencesLoop opens db es st1 = Some st'"
    by (auto split: option.splits)
  from Cons.IH [OF l] referenceStep_grow [OF s1] referenceStep_distinct [OF s1]
    referenceStep_batchAbove [OF s1]
  show ?case by (auto intro: symbolsGrow_trans)
qed

lemma referencesLoop_linked:
  "referencesLoop opens db es st = Some st' \<Longrightarrow> (from, to, rt) \<in> set es \<Longrightarrow>
   to \<in> fst ` set (symbols st) \<Longrightarrow> rt \<noteq> NormalReference \<Longrightarrow> \<not> isNull to \<Longrightarrow>
   linked (symbols st') from to"
proof (induction es arbitrary: st)
  case Nil then show ?case by simp
next
  case (Cons e es)
  from Cons.prems(1) obtain st1 where s1: "referenceStep opens db e st = Some st1"
    and l: "referencesLoop opens db es st1 = Some st'"
    by (auto split: option.splits)
  from referenceStep_grow [OF s1] Cons.prems(3) have to1: "to \<in> fst ` set (symbols st1)"
    by (auto simp: symbolsGrow_def)
  show ?case
  proof (cases "e = (from, to, rt)")
    case True
    with s1 Cons.prems have "linked (symbols st1) from to"
      by (auto intro: referenceStep_linked)
    with referencesLoop_invariants [OF l] show ?thesis by (auto intro: linked_grow)
  next
    case False
    with Cons.prems(2) have "(from, to, rt) \<in> set es" by simp
    from Cons.IH [OF l this to1 Cons.prems(4,5)] show ?thesis .
  qed
qed


lemma unite_covers: "covers cur (snd (unite cur other)) \<and> covers other (snd (unite cur other))"
  by (auto simp: unite_def Let_def covers_def)

lemma unite_unchanged: "\<not> fst (unite cur other) \<Longrightarrow> snd (unite cur other) = cur"
  by (simp add: unite_def Let_def)

lemma stored_covers_db: "batchAbove db st \<Longrightarrow> covers (readCursorInfo db k) (stored db st k)"
  by (auto simp: stored_def batchAbove_def covers_refl split: option.splits)

lemma writeSymbols_read:
  "batchAbove db st \<Longrightarrow> readCursorInfo (writeSymbols db st) k = stored db st k"
  by (auto simp: writeSymbols_def stored_def batchAbove_def readCursorInfo_def map_add_def
      split: option.splits)

lemma symbolsLoop_step:
  "symbolsLoop db ((key, added) # rest) st =
     symbolsLoop db rest
       (if fst (unite (readCursorInfo db key) added)
        then writeValue key (snd (unite (readCursorInfo db key) added)) st else st)"
  by (cases "unite (readCursorInfo db key) added") (auto split: bool.splits)

lemma symbolsLoop_untouched:
  "k \<notin> fst ` set syms \<Longrightarrow> symbolsBatch (symbolsLoop db syms st) k = symbolsBatch st k"
proof (induction syms arbitrary: st)
  case Nil show ?case by simp
next
  case (Cons e syms)
  obtain key added where e: "e = (key, added)" by (cases e)
  from Cons.prems have "k \<noteq> key" and "k \<notin> fst ` set syms" by (auto simp: e)
  with Cons.IH show ?case unfolding e symbolsLoop_step by (simp add: writeValue_def)
qed

lemma symbolsLoop_batchAbove:
  "batchAbove db st \<Longrightarrow> batchAbove db (symbolsLoop db syms st)"
proof (induction syms arbitrary: st)
  case Nil then show ?case by simp
next
  case (Cons e syms)
  obtain key added where e: "e = (key, added)" by (cases e)
  have "batchAbove db (if fst (unite (readCursorInfo db key) added)
        then writeValue key (snd (unite (readCursorInfo db key) added)) st else st)"
    using Cons.prems unite_covers [of "readCursorInfo db key" added]
    by (simp add: writeValue_batchAbove)
  then show ?case unfolding e symbolsLoop_step by (rule Cons.IH)
qed

lemma symbolsLoop_covers:
  "distinct (map fst syms) \<Longrightarrow> batchAbove db st \<Longrightarrow> map_of syms k = Some c \<Longrightarrow>
   covers c (stored db (symbolsLoop db syms st) k)"
proof (induction syms arbitrary: st)
  case Nil then show ?case by simp
next
  case (Cons e syms)
  obtain key added where e: "e = (key, added)" by (cases e)
  let ?u = "unite (readCursorInfo db key) added"
  let ?st1 = "if fst ?u then writeValue key (snd ?u) st else st"
  have ab: "batchAbove db ?st1"
    using Cons.prems(2) unite_covers [of "readCursorInfo db key" added]
    by (simp add: writeValue_batchAbove)
  from Cons.prems(1) have d: "distinct (map fst syms)" and nk: "key \<notin> fst ` set syms"
    by (auto simp: e)
  show ?case
  proof (cases "k = key")
    case True
    with Cons.prems(3) have c: "c = added" by (simp add: e)
    have "covers added (stored db ?st1 key)"
    proof (cases "fst ?u")
      case True
      then show ?thesis using unite_covers [of "readCursorInfo db key" added]
        by (simp add: stored_def writeValue_def)
    next
      case False
      with unite_unchanged [OF False] unite_covers [of "readCursorInfo db key" added]
      have "covers added (readCursorInfo db key)" by simp
      with stored_covers_db [OF Cons.prems(2), of key] False show ?thesis
        by (auto intro: covers_trans)
    qed
    moreover have "stored db (symbolsLoop db syms ?st1) key = stored db ?st1 key"
      using symbolsLoop_untouched [OF nk, of db ?st1] by (simp add: stored_def)
    ultimately show ?thesis unfolding e symbolsLoop_step using True c by simp
  next
    case False
    with Cons.prems(3) have "map_of syms k = Some c" by (simp add: e)
    from Cons.IH [OF d ab this] show ?thesis unfolding e symbolsLoop_step .
  qed
qed


text \<open>
  C1, as the code has it. The writer runs its references and symbols blocks on the staged
  symbols \<open>syms\<close> (a hash) and the staged references \<open>refs\<close>, the store opening. For
  every staged reference \<open>(from, to, rt)\<close> that is not normal, whose target \<open>to\<close> is
  not null and is a key of the staged symbols, the store afterwards has the location
  \<open>from\<close> in the references of both \<open>to\<close> and \<open>from\<close>, and the target of \<open>from\<close> is
  not null.
\<close>

theorem nonNormal_reference_links_in_memory:
  assumes "distinct (map fst syms)" and "(from, to, rt) \<in> set refs"
    and "rt \<noteq> NormalReference" and "to \<in> fst ` set syms" and "\<not> isNull to"
  shows "\<exists>db'. symbolsPhases True db syms refs = Some db'
           \<and> from |\<in>| references (readCursorInfo db' to)
           \<and> from |\<in>| references (readCursorInfo db' from)
           \<and> \<not> isNull (target (readCursorInfo db' from))"
proof -
  let ?st0 = "\<lparr>symbols = syms, symbolDBOpen = False, changedSymbols = False,
              symbolsBatch = Map.empty\<rparr>"
  from referencesLoop_total [of db refs ?st0]
  obtain st1 where l: "referencesLoop True db refs ?st0 = Some st1" ..
  have a0: "batchAbove db ?st0" by (simp add: batchAbove_def)
  from referencesLoop_invariants [OF l] assms(1) a0
  have d1: "distinct (map fst (symbols st1))" and a1: "batchAbove db st1" by simp_all
  from referencesLoop_linked [OF l assms(2) _ assms(3,5)] assms(4)
  have lk: "linked (symbols st1) from to" by simp
  then have ne: "symbols st1 \<noteq> []" by (auto simp: linked_def)
  let ?st2 = "st1\<lparr>symbolDBOpen := True\<rparr>"
  let ?st3 = "symbolsLoop db (symbols st1) ?st2"
  have a2: "batchAbove db ?st2" using a1 by (simp add: batchAbove_def)
  have a3: "batchAbove db ?st3" using a2 by (rule symbolsLoop_batchAbove)
  have res: "symbolsPhases True db syms refs = Some (writeSymbols db ?st3)"
    using l ne by (simp add: symbolsPhases_def openSymbolDB_True)
  have cov: "\<And>k. k \<in> fst ` set (symbols st1) \<Longrightarrow>
      covers (ciAt (symbols st1) k) (readCursorInfo (writeSymbols db ?st3) k)"
  proof -
    fix k assume "k \<in> fst ` set (symbols st1)"
    then obtain c where m: "map_of (symbols st1) k = Some c"
      by (metis domD dom_map_of_conv_image_fst)
    from symbolsLoop_covers [OF d1 a2 m] hashValue_map_of [OF m, of emptyCursorInfo]
    show "covers (ciAt (symbols st1) k) (readCursorInfo (writeSymbols db ?st3) k)"
      by (simp add: writeSymbols_read [OF a3])
  qed
  from lk cov [of "to"] cov [of "from"] show ?thesis
    unfolding res linked_def covers_def by auto
qed


theorem nonNormal_reference_links_in_memory_witness:
  "distinct (map fst [(Location 1 10, emptyCursorInfo)])
   \<and> (Location 1 20, Location 1 10, MemberFunction)
        \<in> set [(Location 1 20, Location 1 10, MemberFunction)]
   \<and> MemberFunction \<noteq> NormalReference
   \<and> Location 1 10 \<in> fst ` set [(Location 1 10, emptyCursorInfo)]
   \<and> \<not> isNull (Location 1 10)
   \<and> (\<exists>db'. symbolsPhases True Map.empty [(Location 1 10, emptyCursorInfo)]
               [(Location 1 20, Location 1 10, MemberFunction)] = Some db'
            \<and> Location 1 20 |\<in>| references (readCursorInfo db' (Location 1 10))
            \<and> Location 1 20 |\<in>| references (readCursorInfo db' (Location 1 20))
            \<and> \<not> isNull (target (readCursorInfo db' (Location 1 20))))"
proof -
  have d: "distinct (map fst [(Location 1 10, emptyCursorInfo)])" by simp
  have m: "(Location 1 20, Location 1 10, MemberFunction)
      \<in> set [(Location 1 20, Location 1 10, MemberFunction)]" by simp
  have r: "MemberFunction \<noteq> NormalReference" by simp
  have k: "Location 1 10 \<in> fst ` set [(Location 1 10, emptyCursorInfo)]" by simp
  have n: "\<not> isNull (Location 1 10)" by (simp add: isNull_def)
  from nonNormal_reference_links_in_memory [OF d m r k n, of Map.empty] d m r k n
  show ?thesis by blast
qed

text \<open>
  C1 as stated fails on the same input. The reference is from \<open>Location 1 20\<close> to
  \<open>Location 1 10\<close>. After the cycle the references of the referring location hold that
  location itself, not the target's, and it is the referring location whose target is set:
  the target of \<open>Location 1 10\<close> is still null.
\<close>

theorem nonNormal_reference_counterexample:
  "symbolAfterCycle Map.empty [(Location 1 10, emptyCursorInfo)]
     [(Location 1 20, Location 1 10, MemberFunction)] (Location 1 10)
     = Some \<lparr>kind = InvalidKind, target = Location 0 0, references = {|Location 1 20|},
             usr = [], symbolName = []\<rparr>
   \<and> symbolAfterCycle Map.empty [(Location 1 10, emptyCursorInfo)]
       [(Location 1 20, Location 1 10, MemberFunction)] (Location 1 20)
     = Some \<lparr>kind = InvalidKind, target = Location 1 10, references = {|Location 1 20|},
             usr = [], symbolName = []\<rparr>
   \<and> Location 1 10 |\<notin>| {|Location 1 20|}
   \<and> isNull (Location 0 0)"
  by (simp add: symbolAfterCycle_def symbolsPhases_def referenceStep_def referenceInMemory_def
      hashValue_def emptyCursorInfo_def addRefs_def Let_def openSymbolDB_def unite_def
      writeSymbols_def writeValue_def readCursorInfo_def isNull_def nullLocation_def)

text \<open>
  Where the target is not among the staged symbols the writer reads the store and puts the
  result into the batch. Two references to one target then both start from what the store
  held, and the later put replaces the earlier one: of \<open>Location 1 20\<close> and
  \<open>Location 1 30\<close>, both referring to \<open>Location 1 10\<close>, only the second is among the
  target's references afterwards.
\<close>

lemma references_in_store_lost_update:
  "symbolAfterCycle Map.empty []
     [(Location 1 20, Location 1 10, MemberFunction),
      (Location 1 30, Location 1 10, MemberFunction)] (Location 1 10)
     = Some \<lparr>kind = InvalidKind, target = Location 0 0, references = {|Location 1 30|},
             usr = [], symbolName = []\<rparr>"
  by (simp add: symbolAfterCycle_def symbolsPhases_def referenceStep_def referenceInDB_def
      backLinkInDB_def addTo_eq emptyCursorInfo_def Let_def openSymbolDB_def
      writeSymbols_def writeValue_def readCursorInfo_def isNull_def nullLocation_def
      fcard_finsert_if)

subsection \<open>The persistence timer\<close>

lemma tracked_initial: "tracked \<lparr>mSaveTimers = Map.empty, loopTimers = Map.empty\<rparr>"
  by (simp add: tracked_def)

lemma takeSaveTimer_tracked: "tracked st \<Longrightarrow> tracked (takeSaveTimer ix st)"
  by (auto simp: tracked_def takeSaveTimer_def removeTimer_def Let_def
      split: option.splits if_splits)

lemma takeSaveTimer_disarms: "tracked st \<Longrightarrow> armedFor (takeSaveTimer ix st) ix = {}"
  by (auto simp: tracked_def armedFor_def takeSaveTimer_def removeTimer_def Let_def
      split: option.splits if_splits)

lemma onJobStarted_tracked: "tracked st \<Longrightarrow> tracked (onJobStarted ix st)"
  by (simp add: onJobStarted_def takeSaveTimer_tracked)

lemma onJobsComplete_tracked:
  assumes "tracked st" and "newId \<noteq> - 1"
    and "newId \<notin> dom (loopTimers (takeSaveTimer ix st))"
  shows "tracked (onJobsComplete ix n newId st)"
  using takeSaveTimer_tracked [OF assms(1), of ix] takeSaveTimer_disarms [OF assms(1), of ix]
    assms(2,3)
  unfolding onJobsComplete_def Let_def
  by (auto simp: tracked_def addTimer_def armedFor_def split: if_splits)

lemma timerFires_tracked:
  assumes "tracked st" and "timerFires tid st = Some (ix, st')"
  shows "tracked st'"
proof -
  from assms(2) have st': "st' = removeTimer tid st"
    by (auto simp: timerFires_def split: option.splits)
  have "\<And>i t. loopTimers st' i = Some t \<Longrightarrow> loopTimers st i = Some t"
    by (auto simp: st' removeTimer_def split: if_splits)
  moreover have "mSaveTimers st' = mSaveTimers st" by (simp add: st' removeTimer_def)
  ultimately show ?thesis using assms(1) unfolding tracked_def by metis
qed

lemma onJobsComplete_arms:
  assumes "tracked st" and "n \<noteq> 0"
  shows "armedFor (onJobsComplete ix n newId st) ix = {newId}"
  using takeSaveTimer_disarms [OF assms(1), of ix] assms(2)
  by (auto simp: onJobsComplete_def Let_def addTimer_def armedFor_def)

lemma onJobsComplete_timer:
  assumes "n \<noteq> 0"
  shows "loopTimers (onJobsComplete ix n newId st) newId = Some \<lparr>interval = 5000, userData = ix\<rparr>
         \<and> mSaveTimers (onJobsComplete ix n newId st) ix = Some newId"
  using assms by (simp add: onJobsComplete_def Let_def addTimer_def)

lemma takeSaveTimer_removes:
  assumes "mSaveTimers st ix = Some tid" and "tid \<noteq> - 1" and "armedFor st ix = {tid}"
  shows "armedFor (takeSaveTimer ix st) ix = {} \<and> loopTimers (takeSaveTimer ix st) tid = None"
  using assms by (auto simp: takeSaveTimer_def removeTimer_def armedFor_def Let_def)

text \<open>
  C9. In a state where the server knows every timer of the loop, \<open>jobsComplete(ix, n)\<close>
  with \<open>n > 0\<close> leaves exactly one timer for \<open>ix\<close>, the new one, of 5000 ms, so that any
  timer armed before is replaced; the timer is one-shot, since firing removes it. After a
  following \<open>jobStarted(ix)\<close>, or a following \<open>jobsComplete(ix, 0)\<close>, no timer for
  \<open>ix\<close> is left and the one that was armed cannot fire.
\<close>

theorem save_timer_armed_then_disarmed:
  assumes "tracked st" and "0 < n" and "newId \<noteq> - 1"
  shows "armedFor (onJobsComplete ix n newId st) ix = {newId}
         \<and> loopTimers (onJobsComplete ix n newId st) newId
             = Some \<lparr>interval = 5000, userData = ix\<rparr>
         \<and> (\<exists>st'. timerFires newId (onJobsComplete ix n newId st) = Some (ix, st')
                   \<and> loopTimers st' newId = None)
         \<and> armedFor (onJobStarted ix (onJobsComplete ix n newId st)) ix = {}
         \<and> timerFires newId (onJobStarted ix (onJobsComplete ix n newId st)) = None
         \<and> armedFor (onJobsComplete ix 0 otherId (onJobsComplete ix n newId st)) ix = {}
         \<and> timerFires newId (onJobsComplete ix 0 otherId (onJobsComplete ix n newId st)) = None"
proof -
  let ?st1 = "onJobsComplete ix n newId st"
  from assms(2) have n: "n \<noteq> 0" by simp
  have arm: "armedFor ?st1 ix = {newId}" using assms(1) n by (rule onJobsComplete_arms)
  note tm = onJobsComplete_timer [OF n, of ix newId st]
  from tm have t: "loopTimers ?st1 newId = Some \<lparr>interval = 5000, userData = ix\<rparr>"
    and m: "mSaveTimers ?st1 ix = Some newId" by simp_all
  have fire: "\<exists>st'. timerFires newId ?st1 = Some (ix, st') \<and> loopTimers st' newId = None"
    using t by (simp add: timerFires_def removeTimer_def)
  note rm = takeSaveTimer_removes [OF m assms(3) arm]
  have started: "armedFor (onJobStarted ix ?st1) ix = {}
      \<and> timerFires newId (onJobStarted ix ?st1) = None"
    using rm by (simp add: onJobStarted_def timerFires_def)
  have zero: "armedFor (onJobsComplete ix 0 otherId ?st1) ix = {}
      \<and> timerFires newId (onJobsComplete ix 0 otherId ?st1) = None"
    using rm by (simp add: onJobsComplete_def [of ix 0] timerFires_def)
  from arm t fire started zero show ?thesis by simp
qed

theorem save_timer_armed_then_disarmed_witness:
  "tracked \<lparr>mSaveTimers = [7 \<mapsto> 3], loopTimers = [3 \<mapsto> \<lparr>interval = 5000, userData = 7\<rparr>]\<rparr>
   \<and> (0 :: int) < 2 \<and> (4 :: int) \<noteq> - 1
   \<and> armedFor (onJobsComplete 7 2 4
        \<lparr>mSaveTimers = [7 \<mapsto> 3], loopTimers = [3 \<mapsto> \<lparr>interval = 5000, userData = 7\<rparr>]\<rparr>) 7
       = {4}
   \<and> armedFor (onJobStarted 7 (onJobsComplete 7 2 4
        \<lparr>mSaveTimers = [7 \<mapsto> 3], loopTimers = [3 \<mapsto> \<lparr>interval = 5000, userData = 7\<rparr>]\<rparr>)) 7
       = {}
   \<and> timerFires 4 (onJobStarted 7 (onJobsComplete 7 2 4
        \<lparr>mSaveTimers = [7 \<mapsto> 3], loopTimers = [3 \<mapsto> \<lparr>interval = 5000, userData = 7\<rparr>]\<rparr>))
       = None"
proof -
  let ?st = "\<lparr>mSaveTimers = [7 \<mapsto> 3], loopTimers = [3 \<mapsto> \<lparr>interval = 5000, userData = 7\<rparr>]\<rparr>"
  have t: "tracked ?st" by (simp add: tracked_def)
  have n: "(0 :: int) < 2" by simp
  have i: "(4 :: int) \<noteq> - 1" by simp
  from save_timer_armed_then_disarmed [OF t n i, of 7] t show ?thesis by simp
qed

subsection \<open>Current-project selection\<close>

lemma strncmpEq_prefix:
  "CHR 0x00 \<notin> set root \<Longrightarrow> strncmpEq (length root) root path \<longleftrightarrow> prefix root path"
proof (induction root arbitrary: path)
  case Nil show ?case by simp
next
  case (Cons x root)
  then show ?case by (cases path) auto
qed

lemma rootMatches_prefix:
  "CHR 0x00 \<notin> set root \<Longrightarrow> rootMatches root path \<longleftrightarrow> root \<noteq> [] \<and> prefix root path"
  by (simp add: rootMatches_def strncmpEq_prefix)

lemma matchLength_ge: "- 1 \<le> matchLength path p"
  by (auto simp: matchLength_def max_def)




lemma firstLongest_bounds:
  "firstLongest path projs best len = Some key \<Longrightarrow>
   best = Some key \<and> (\<forall>j < length projs. matchLength path (snd (projs ! j)) \<le> len)
   \<or> (\<exists>i < length projs. fst (projs ! i) = key
         \<and> len < matchLength path (snd (projs ! i))
         \<and> (\<forall>j < length projs. matchLength path (snd (projs ! j))
                \<le> matchLength path (snd (projs ! i)))
         \<and> (\<forall>j < i. matchLength path (snd (projs ! j)) < matchLength path (snd (projs ! i))))"
proof (induction projs arbitrary: best len)
  case Nil then show ?case by simp
next
  case (Cons e projs)
  obtain k p where e: "e = (k, p)" by (cases e)
  let ?ml = "\<lambda>q. matchLength path (snd q)"
  show ?case
  proof (cases "matchLength path p > len")
    case True
    with Cons.prems have r: "firstLongest path projs (Some k) (matchLength path p) = Some key"
      by (simp add: e)
    from Cons.IH [OF r] show ?thesis
    proof
      assume h: "Some k = Some key \<and> (\<forall>j < length projs. ?ml (projs ! j) \<le> matchLength path p)"
      have "\<forall>j < length (e # projs). ?ml ((e # projs) ! j) \<le> ?ml ((e # projs) ! 0)"
        using h by (auto simp: e nth_Cons split: nat.splits)
      with h True show ?thesis
        by (intro disjI2 exI [of _ 0]) (simp add: e)
    next
      assume "\<exists>i < length projs. fst (projs ! i) = key
          \<and> matchLength path p < ?ml (projs ! i)
          \<and> (\<forall>j < length projs. ?ml (projs ! j) \<le> ?ml (projs ! i))
          \<and> (\<forall>j < i. ?ml (projs ! j) < ?ml (projs ! i))"
      then obtain i where i: "i < length projs" "fst (projs ! i) = key"
        "matchLength path p < ?ml (projs ! i)"
        "\<forall>j < length projs. ?ml (projs ! j) \<le> ?ml (projs ! i)"
        "\<forall>j < i. ?ml (projs ! j) < ?ml (projs ! i)" by blast
      have a: "\<forall>j < length (e # projs). ?ml ((e # projs) ! j) \<le> ?ml ((e # projs) ! Suc i)"
        using i by (auto simp: e nth_Cons split: nat.splits)
      have b: "\<forall>j < Suc i. ?ml ((e # projs) ! j) < ?ml ((e # projs) ! Suc i)"
        using i by (auto simp: e nth_Cons split: nat.splits)
      from i True a b show ?thesis
        by (intro disjI2 exI [of _ "Suc i"]) simp
    qed
  next
    case False
    with Cons.prems have r: "firstLongest path projs best len = Some key" by (simp add: e)
    from Cons.IH [OF r] show ?thesis
    proof
      assume h: "best = Some key \<and> (\<forall>j < length projs. ?ml (projs ! j) \<le> len)"
      with False have "\<forall>j < length (e # projs). ?ml ((e # projs) ! j) \<le> len"
        by (auto simp: e nth_Cons split: nat.splits)
      with h show ?thesis by blast
    next
      assume "\<exists>i < length projs. fst (projs ! i) = key
          \<and> len < ?ml (projs ! i)
          \<and> (\<forall>j < length projs. ?ml (projs ! j) \<le> ?ml (projs ! i))
          \<and> (\<forall>j < i. ?ml (projs ! j) < ?ml (projs ! i))"
      then obtain i where i: "i < length projs" "fst (projs ! i) = key"
        "len < ?ml (projs ! i)"
        "\<forall>j < length projs. ?ml (projs ! j) \<le> ?ml (projs ! i)"
        "\<forall>j < i. ?ml (projs ! j) < ?ml (projs ! i)" by blast
      have a: "\<forall>j < length (e # projs). ?ml ((e # projs) ! j) \<le> ?ml ((e # projs) ! Suc i)"
        using i False by (auto simp: e nth_Cons split: nat.splits)
      have b: "\<forall>j < Suc i. ?ml ((e # projs) ! j) < ?ml ((e # projs) ! Suc i)"
        using i False by (auto simp: e nth_Cons split: nat.splits)
      from i a b show ?thesis
        by (intro disjI2 exI [of _ "Suc i"]) simp
    qed
  qed
qed

lemma firstLongest_none:
  "firstLongest path projs None len = None \<Longrightarrow> (key, p) \<in> set projs
   \<Longrightarrow> matchLength path p \<le> len"
proof (induction projs arbitrary: len)
  case Nil then show ?case by simp
next
  case (Cons e projs)
  obtain k' p' where e: "e = (k', p')" by (cases e)
  have some: "\<And>ps b l. firstLongest path ps (Some b) l \<noteq> None"
  proof -
    fix ps b l show "firstLongest path ps (Some b) l \<noteq> None"
      by (induction ps arbitrary: b l) auto
  qed
  from Cons.prems(1) some [of projs k' "matchLength path p'"]
  have le: "matchLength path p' \<le> len" and r: "firstLongest path projs None len = None"
    by (auto simp: e split: if_splits)
  from Cons.prems(2) show ?case
  proof (cases "(key, p) = e")
    case True with le show ?thesis by (simp add: e)
  next
    case False
    with Cons.prems(2) have "(key, p) \<in> set projs" by auto
    from Cons.IH [OF r this] show ?thesis .
  qed
qed

text \<open>
  What \<open>longestPrefixProject\<close> picks: an entry with a matching root whose longest
  matching root is as long as any entry's and longer than that of every entry before it;
  and it picks none only if no root of any entry matches.
\<close>

lemma longestPrefixProject_first_longest:
  assumes "longestPrefixProject path projs = Some key"
  shows "\<exists>i < length projs. fst (projs ! i) = key
           \<and> 0 \<le> matchLength path (snd (projs ! i))
           \<and> (\<forall>j < length projs. matchLength path (snd (projs ! j))
                  \<le> matchLength path (snd (projs ! i)))
           \<and> (\<forall>j < i. matchLength path (snd (projs ! j)) < matchLength path (snd (projs ! i)))"
  using firstLongest_bounds [OF assms [unfolded longestPrefixProject_def]] by force

lemma longestPrefixProject_none:
  assumes "longestPrefixProject path projs = None" and "(key, p) \<in> set projs"
  shows "\<not> rootMatches (srcRoot p) path \<and> \<not> rootMatches (resolvedSrcRoot p) path"
proof -
  from firstLongest_none [OF assms(1) [unfolded longestPrefixProject_def] assms(2)]
  have "matchLength path p \<le> - 1" .
  then show ?thesis by (auto simp: matchLength_def max_def split: if_splits)
qed






subsection \<open>The query IsIndexed\<close>

lemma restoreCurrent_current:
  "mCurrentProject (restoreCurrent old reg)
     = (case old of None \<Rightarrow> mCurrentProject reg | Some key \<Rightarrow> Some key)"
  by (simp add: restoreCurrent_def split: option.splits)

text \<open>
  C10, as the code has it. For an existing file the handler always replies. The current
  project afterwards is the one before the query whenever there was one, and the registry is
  untouched when the file has no id; when there was no current project, the project that the
  selection made current stays current. For an existing directory the registry after the
  reply is the one the selection left.
\<close>

theorem isIndexed_current_project:
  "(\<exists>reply reg'. isIndexed File fid path reg = Some (reply, reg')
       \<and> (fid = 0 \<longrightarrow> reg' = reg)
       \<and> (mCurrentProject reg \<noteq> None \<longrightarrow> mCurrentProject reg' = mCurrentProject reg)
       \<and> (mCurrentProject reg = None \<and> fid \<noteq> 0 \<longrightarrow>
            mCurrentProject reg'
              = mCurrentProject (snd (updateProjectForLocation path reg))))
   \<and> (\<forall>reply reg'. isIndexed Directory fid path reg = Some (reply, reg') \<longrightarrow>
          reg' = snd (updateProjectForLocation path reg))"
proof -
  let ?reg1 = "snd (updateProjectForLocation path reg)"
  have fl: "\<exists>reply. isIndexed File fid path reg
      = Some (reply, if fid = 0 then reg else restoreCurrent (mCurrentProject reg) ?reg1)"
    by (auto simp: isIndexed_def Let_def split: option.splits)
  have cur: "mCurrentProject (restoreCurrent (mCurrentProject reg) ?reg1)
      = (case mCurrentProject reg of None \<Rightarrow> mCurrentProject ?reg1 | Some key \<Rightarrow> Some key)"
    by (rule restoreCurrent_current)
  have keep: "fid = 0 \<Longrightarrow> mCurrentProject reg \<noteq> None
      \<Longrightarrow> mCurrentProject reg = mCurrentProject reg" by simp
  have dir: "\<forall>reply reg'. isIndexed Directory fid path reg = Some (reply, reg') \<longrightarrow>
      reg' = ?reg1"
    by (auto simp: isIndexed_def Let_def split: option.splits if_splits)
  from fl obtain reply where r: "isIndexed File fid path reg
      = Some (reply, if fid = 0 then reg else restoreCurrent (mCurrentProject reg) ?reg1)" ..
  have "(fid = 0 \<longrightarrow> (if fid = 0 then reg else restoreCurrent (mCurrentProject reg) ?reg1) = reg)
      \<and> (mCurrentProject reg \<noteq> None \<longrightarrow>
           mCurrentProject (if fid = 0 then reg else restoreCurrent (mCurrentProject reg) ?reg1)
             = mCurrentProject reg)
      \<and> (mCurrentProject reg = None \<and> fid \<noteq> 0 \<longrightarrow>
           mCurrentProject (if fid = 0 then reg else restoreCurrent (mCurrentProject reg) ?reg1)
             = mCurrentProject ?reg1)"
    using cur by (auto split: option.splits)
  with r dir show ?thesis by blast
qed

theorem isIndexed_current_project_witness:
  "mCurrentProject registryCurrentA \<noteq> None
   \<and> isIndexed File 6 ''/a/b/x.c'' registryCurrentA = Some (''0'', registryCurrentA)
   \<and> mCurrentProject registryNoCurrent = None \<and> (6 :: nat) \<noteq> 0
   \<and> isIndexed File 6 ''/a/b/x.c'' registryNoCurrent
       = Some (''1'', registryNoCurrent\<lparr>mCurrentProject := Some ''/a/b/Makefile''\<rparr>)
   \<and> snd (updateProjectForLocation ''/a/b/x.c'' registryNoCurrent)
       = registryNoCurrent\<lparr>mCurrentProject := Some ''/a/b/Makefile''\<rparr>
   \<and> isIndexed Directory 0 ''/a/b'' registryNoCurrent
       = Some (''1'', registryNoCurrent\<lparr>mCurrentProject := Some ''/a/Makefile''\<rparr>)
   \<and> snd (updateProjectForLocation ''/a/b'' registryNoCurrent)
       = registryNoCurrent\<lparr>mCurrentProject := Some ''/a/Makefile''\<rparr>"
proof -
  have a: "isIndexed File 6 ''/a/b/x.c'' registryCurrentA = Some (''0'', registryCurrentA)"
    by (simp add: isIndexed_def updateProjectForLocation_def registryCurrentA_def
        rootMatches_def projectA_def currentProject_def restoreCurrent_def)
  have u: "updateProjectForLocation ''/a/b/x.c'' registryNoCurrent
      = (True, registryNoCurrent\<lparr>mCurrentProject := Some ''/a/b/Makefile''\<rparr>)"
    by (simp add: updateProjectForLocation_def registryNoCurrent_def rootMatches_def
        projectA_def projectAB_def setCurrentProject_def)
  have b: "isIndexed File 6 ''/a/b/x.c'' registryNoCurrent
      = Some (''1'', registryNoCurrent\<lparr>mCurrentProject := Some ''/a/b/Makefile''\<rparr>)"
    by (simp add: isIndexed_def u Let_def)
       (simp add: registryNoCurrent_def currentProject_def restoreCurrent_def projectAB_def)
  have v: "updateProjectForLocation ''/a/b'' registryNoCurrent
      = (True, registryNoCurrent\<lparr>mCurrentProject := Some ''/a/Makefile''\<rparr>)"
    by (simp add: updateProjectForLocation_def registryNoCurrent_def rootMatches_def
        projectA_def projectAB_def setCurrentProject_def)
  have c: "isIndexed Directory 0 ''/a/b'' registryNoCurrent
      = Some (''1'', registryNoCurrent\<lparr>mCurrentProject := Some ''/a/Makefile''\<rparr>)"
    by (simp add: isIndexed_def v Let_def)
       (simp add: registryNoCurrent_def currentProject_def projectA_def)
  have n1: "mCurrentProject registryCurrentA \<noteq> None" by (simp add: registryCurrentA_def)
  have n2: "mCurrentProject registryNoCurrent = None" by (simp add: registryNoCurrent_def)
  from isIndexed_current_project [of 6 "''/a/b/x.c''" registryCurrentA]
    isIndexed_current_project [of 0 "''/a/b''" registryNoCurrent]
    a b c u v n1 n2
  show ?thesis by simp
qed

text \<open>
  C10 as stated fails when there is no current project before the query: the project that
  the lookup selects for the file stays current after the reply.
\<close>

theorem isIndexed_no_current_counterexample:
  "mCurrentProject registryNoCurrent = None
   \<and> isIndexed File 6 ''/a/b/x.c'' registryNoCurrent
       = Some (''1'', registryNoCurrent\<lparr>mCurrentProject := Some ''/a/b/Makefile''\<rparr>)
   \<and> mCurrentProject (registryNoCurrent\<lparr>mCurrentProject := Some ''/a/b/Makefile''\<rparr>)
       = Some ''/a/b/Makefile''"
proof -
  have u: "updateProjectForLocation ''/a/b/x.c'' registryNoCurrent
      = (True, registryNoCurrent\<lparr>mCurrentProject := Some ''/a/b/Makefile''\<rparr>)"
    by (simp add: updateProjectForLocation_def registryNoCurrent_def rootMatches_def
        projectA_def projectAB_def setCurrentProject_def)
  have b: "isIndexed File 6 ''/a/b/x.c'' registryNoCurrent
      = Some (''1'', registryNoCurrent\<lparr>mCurrentProject := Some ''/a/b/Makefile''\<rparr>)"
    by (simp add: isIndexed_def u Let_def)
       (simp add: registryNoCurrent_def currentProject_def restoreCurrent_def projectAB_def)
  from b show ?thesis by (simp add: registryNoCurrent_def)
qed

subsection \<open>Pending lookups\<close>

lemma eraseLookups_filter: "eraseLookups conn ls = filter (\<lambda>e. snd e \<noteq> conn) ls"
  by (induction ls) auto

lemma eraseLookups_absent:
  assumes "distinct (map fst ls)" and "(jobId, conn) \<in> set ls"
  shows "map_of (eraseLookups conn ls) jobId = None"
proof -
  have "\<And>c. (jobId, c) \<in> set ls \<Longrightarrow> c = conn"
    using assms by (metis map_of_is_SomeI option.inject)
  then have "jobId \<notin> fst ` set (filter (\<lambda>e. snd e \<noteq> conn) ls)" by force
  then show ?thesis by (simp add: eraseLookups_filter map_of_eq_None_iff)
qed

text \<open>
  C6, as the code has it. Destroying a connection leaves in the pending-lookups table
  exactly the entries of the other connections, and aborts no job. The job of a removed
  entry is aborted when the event loop handles the next output event of that job, if the job
  is still alive then.
\<close>

theorem connection_destroyed_purges_lookups:
  "mPendingLookups (onConnectionDestroyed conn st)
     = filter (\<lambda>e. snd e \<noteq> conn) (mPendingLookups st)
   \<and> aborted (onConnectionDestroyed conn st) = aborted st
   \<and> (distinct (map fst (mPendingLookups st)) \<and> (evId e, conn) \<in> set (mPendingLookups st)
        \<and> evJob e \<longrightarrow>
        (\<exists>st'. event e (onConnectionDestroyed conn st) = Some st' \<and> evId e \<in> aborted st'))"
proof -
  have a: "mPendingLookups (onConnectionDestroyed conn st)
      = filter (\<lambda>e. snd e \<noteq> conn) (mPendingLookups st)"
    by (simp add: onConnectionDestroyed_def eraseLookups_filter)
  have b: "aborted (onConnectionDestroyed conn st) = aborted st"
    by (simp add: onConnectionDestroyed_def)
  have c: "\<exists>st'. event e (onConnectionDestroyed conn st) = Some st' \<and> evId e \<in> aborted st'"
    if "distinct (map fst (mPendingLookups st))" "(evId e, conn) \<in> set (mPendingLookups st)"
      "evJob e"
  proof -
    from eraseLookups_absent [OF that(1,2)]
    have "map_of (mPendingLookups (onConnectionDestroyed conn st)) (evId e) = None"
      by (simp add: onConnectionDestroyed_def)
    with that(3) show ?thesis by (simp add: event_def abortJob_def)
  qed
  from a b c show ?thesis by blast
qed

theorem connection_destroyed_purges_lookups_witness:
  "distinct (map fst [(1 :: int32, 10 :: nat), (2, 20), (3, 10)])
   \<and> (1, 10) \<in> set [(1 :: int32, 10 :: nat), (2, 20), (3, 10)]
   \<and> mPendingLookups (onConnectionDestroyed 10
        \<lparr>mPendingLookups = [(1, 10), (2, 20), (3, 10)], connections = Map.empty,
         aborted = {}\<rparr>) = [(2, 20)]
   \<and> (\<exists>st'. event \<lparr>evId = 1, evJob = True, out = ''x'', finish = False\<rparr>
               (onConnectionDestroyed 10
                 \<lparr>mPendingLookups = [(1, 10), (2, 20), (3, 10)], connections = Map.empty,
                  aborted = {}\<rparr>) = Some st'
            \<and> 1 \<in> aborted st')"
proof -
  let ?st = "\<lparr>mPendingLookups = [(1 :: int32, 10 :: nat), (2, 20), (3, 10)],
              connections = Map.empty, aborted = {}\<rparr>"
  let ?e = "\<lparr>evId = 1, evJob = True, out = ''x'', finish = False\<rparr>"
  have d: "distinct (map fst [(1 :: int32, 10 :: nat), (2, 20), (3, 10)])" by simp
  have m: "(1, 10) \<in> set [(1 :: int32, 10 :: nat), (2, 20), (3, 10)]" by simp
  from connection_destroyed_purges_lookups [of 10 ?st ?e] d m show ?thesis by simp
qed

text \<open>
  C6 as stated fails: the removal aborts nothing, and an iteration of the event loop that
  follows it, here one that handles an output event of another job, leaves the job of the
  removed entry running.
\<close>

theorem connection_destroyed_no_abort_counterexample:
  "mPendingLookups (onConnectionDestroyed 10
      \<lparr>mPendingLookups = [(1, 10), (2, 20)],
       connections = [20 \<mapsto> \<lparr>isConnected = True, writable = True, written = [],
                              finished = False\<rparr>],
       aborted = {}\<rparr>) = [(2, 20)]
   \<and> aborted (onConnectionDestroyed 10
      \<lparr>mPendingLookups = [(1, 10), (2, 20)],
       connections = [20 \<mapsto> \<lparr>isConnected = True, writable = True, written = [],
                              finished = False\<rparr>],
       aborted = {}\<rparr>) = {}
   \<and> map_option aborted
        (event \<lparr>evId = 2, evJob = True, out = ''x'', finish = False\<rparr>
          (onConnectionDestroyed 10
            \<lparr>mPendingLookups = [(1, 10), (2, 20)],
             connections = [20 \<mapsto> \<lparr>isConnected = True, writable = True, written = [],
                                    finished = False\<rparr>],
             aborted = {}\<rparr>)) = Some {}"
  by (simp add: onConnectionDestroyed_def event_def Let_def)

subsection \<open>Saving\<close>

lemma saveProject_changes:
  "saveProject env ix projs files p \<noteq> files p \<Longrightarrow>
   \<exists>rest. saveProject env ix projs files p = Some (Int32 (databaseVersion env) # rest)"
proof (induction projs)
  case Nil then show ?case by simp
next
  case (Cons e projs)
  obtain key q where e: "e = (key, q)" by (cases e)
  show ?case
  proof (cases "projectIndexer q = Some ix")
    case False
    with Cons show ?thesis by (simp add: e)
  next
    case True
    with Cons.prems show ?thesis
      by (auto simp: e Let_def split: if_splits prod.splits)
  qed
qed

lemma saveProject_written:
  assumes "projectOf ix projs = Some key" and "canOpen env (dataDir env @ encodePath env key)"
  shows "saveProject env ix projs files (dataDir env @ encodePath env key)
     = Some (Int32 (databaseVersion env) # snd (projectSave env key)
             @ (if fst (projectSave env key) then snd (indexerSave env ix) else []))"
  using assms
proof (induction projs)
  case Nil then show ?case by simp
next
  case (Cons e projs)
  obtain k q where e: "e = (k, q)" by (cases e)
  show ?case
  proof (cases "projectIndexer q = Some ix")
    case False
    with Cons show ?thesis by (simp add: e)
  next
    case True
    with Cons.prems have "k = key" by (simp add: e)
    with True Cons.prems(2) show ?thesis
      by (simp add: e Let_def split: prod.splits)
  qed
qed

lemma save_versioned:
  "(save env ix projs files p \<noteq> files p \<longrightarrow>
      (\<exists>rest. save env ix projs files p = Some (Int32 (databaseVersion env) # rest)))
   \<and> (mkdirOk env \<and> canOpen env (dataDir env @ ''fileids'')
        \<and> projectOf ix projs = Some key \<and> canOpen env (dataDir env @ encodePath env key) \<longrightarrow>
        save env ix projs files (dataDir env @ encodePath env key)
          = Some (Int32 (databaseVersion env) # snd (projectSave env key)
                  @ (if fst (projectSave env key) then snd (indexerSave env ix) else []))
        \<and> (dataDir env @ encodePath env key \<noteq> dataDir env @ ''fileids'' \<longrightarrow>
             save env ix projs files (dataDir env @ ''fileids'')
               = Some [Int32 (databaseVersion env), PathsToIds (pathsToIds env)]))"
proof -
  let ?ids = "dataDir env @ ''fileids''"
  let ?f1 = "files(?ids \<mapsto> [Int32 (databaseVersion env), PathsToIds (pathsToIds env)])"
  have a: "save env ix projs files p \<noteq> files p \<longrightarrow>
      (\<exists>rest. save env ix projs files p = Some (Int32 (databaseVersion env) # rest))"
  proof
    assume ch: "save env ix projs files p \<noteq> files p"
    then have ok: "mkdirOk env" "canOpen env ?ids" by (auto simp: save_def Let_def split: if_splits)
    then have s: "save env ix projs files = saveProject env ix projs ?f1"
      by (simp add: save_def Let_def)
    show "\<exists>rest. save env ix projs files p = Some (Int32 (databaseVersion env) # rest)"
    proof (cases "saveProject env ix projs ?f1 p = ?f1 p")
      case False
      from saveProject_changes [OF False] s show ?thesis by simp
    next
      case True
      with ch s have "?f1 p \<noteq> files p" by simp
      then have "p = ?ids" by (auto split: if_splits)
      with True s show ?thesis by simp
    qed
  qed
  have b: "save env ix projs files (dataDir env @ encodePath env key)
          = Some (Int32 (databaseVersion env) # snd (projectSave env key)
                  @ (if fst (projectSave env key) then snd (indexerSave env ix) else []))
        \<and> (dataDir env @ encodePath env key \<noteq> ?ids \<longrightarrow>
             save env ix projs files ?ids
               = Some [Int32 (databaseVersion env), PathsToIds (pathsToIds env)])"
    if h: "mkdirOk env" "canOpen env ?ids" "projectOf ix projs = Some key"
      "canOpen env (dataDir env @ encodePath env key)"
  proof -
    from h(1,2) have s: "save env ix projs files = saveProject env ix projs ?f1"
      by (simp add: save_def Let_def)
    have ids: "saveProject env ix projs ?f1 ?ids = ?f1 ?ids"
      if ne: "dataDir env @ encodePath env key \<noteq> ?ids"
      using h(3) ne
    proof (induction projs)
      case Nil then show ?case by simp
    next
      case (Cons e projs)
      obtain k q where e: "e = (k, q)" by (cases e)
      show ?case
      proof (cases "projectIndexer q = Some ix")
        case False
        with Cons show ?thesis by (simp add: e)
      next
        case True
        with Cons.prems(1) have "k = key" by (simp add: e)
        with True Cons.prems(2) show ?thesis
          by (simp add: e Let_def split: prod.splits)
      qed
    qed
    from saveProject_written [OF h(3,4), of ?f1] ids s show ?thesis by simp
  qed
  from a b show ?thesis by blast
qed

text \<open>
  C7, as the code has it. When the save timer fires, the callback removes the timer and
  saves. Every file that the save has changed begins with the 32-bit schema version. When
  the directory can be made and the two files can be opened, the project blob of the
  indexer's project (the first entry of the registry holding the indexer) is the version
  followed by what \<^verbatim>\<open>Project::save\<close> wrote and, if that succeeded, by what
  \<^verbatim>\<open>Indexer::save\<close> wrote; and the global blob \<^verbatim>\<open>fileids\<close>, when it is another
  file, is the version followed by the path table. Both files are written in place.
\<close>

theorem saveTimerCallback_writes_versioned_blobs:
  "loopTimers (fst (saveTimerCallback env tid ix projs (pst, files))) tid = None
   \<and> (snd (saveTimerCallback env tid ix projs (pst, files)) p \<noteq> files p \<longrightarrow>
        (\<exists>rest. snd (saveTimerCallback env tid ix projs (pst, files)) p
                  = Some (Int32 (databaseVersion env) # rest)))
   \<and> (mkdirOk env \<and> canOpen env (dataDir env @ ''fileids'')
        \<and> projectOf ix projs = Some key \<and> canOpen env (dataDir env @ encodePath env key) \<longrightarrow>
        snd (saveTimerCallback env tid ix projs (pst, files)) (dataDir env @ encodePath env key)
          = Some (Int32 (databaseVersion env) # snd (projectSave env key)
                  @ (if fst (projectSave env key) then snd (indexerSave env ix) else []))
        \<and> (dataDir env @ encodePath env key \<noteq> dataDir env @ ''fileids'' \<longrightarrow>
             snd (saveTimerCallback env tid ix projs (pst, files)) (dataDir env @ ''fileids'')
               = Some [Int32 (databaseVersion env), PathsToIds (pathsToIds env)]))"
  using save_versioned [of env ix projs files p key]
  by (simp add: saveTimerCallback_def removeTimer_def)

lemma example_save_paths:
  "dataDir (exampleSaveEnv b) @ encodePath (exampleSaveEnv b) ''/a/Makefile'' = ''/d/_a_Makefile''"
  "dataDir (exampleSaveEnv b) @ ''fileids'' = ''/d/fileids''"
  by (simp_all add: exampleSaveEnv_def)

lemma example_save_project: "projectOf 1 (mProjects registryCurrentA) = Some ''/a/Makefile''"
  by (simp add: registryCurrentA_def projectA_def)

theorem saveTimerCallback_writes_versioned_blobs_witness:
  "mkdirOk (exampleSaveEnv True) \<and> canOpen (exampleSaveEnv True) ''/d/fileids''
   \<and> projectOf 1 (mProjects registryCurrentA) = Some ''/a/Makefile''
   \<and> canOpen (exampleSaveEnv True) ''/d/_a_Makefile''
   \<and> ''/d/_a_Makefile'' \<noteq> ''/d/fileids''
   \<and> snd (saveTimerCallback (exampleSaveEnv True) 3 1 (mProjects registryCurrentA)
          (\<lparr>mSaveTimers = [1 \<mapsto> 3], loopTimers = [3 \<mapsto> \<lparr>interval = 5000, userData = 1\<rparr>]\<rparr>,
           Map.empty)) ''/d/_a_Makefile''
       = Some [Int32 7, Bytes ''project'', Bytes ''indexer'']
   \<and> snd (saveTimerCallback (exampleSaveEnv True) 3 1 (mProjects registryCurrentA)
          (\<lparr>mSaveTimers = [1 \<mapsto> 3], loopTimers = [3 \<mapsto> \<lparr>interval = 5000, userData = 1\<rparr>]\<rparr>,
           Map.empty)) ''/d/fileids''
       = Some [Int32 7, PathsToIds [(''/a/x.c'', 1)]]"
proof -
  let ?pst = "\<lparr>mSaveTimers = [1 \<mapsto> 3], loopTimers = [3 \<mapsto> \<lparr>interval = 5000, userData = 1\<rparr>]\<rparr>"
  have m: "mkdirOk (exampleSaveEnv True)" by (simp add: exampleSaveEnv_def)
  have o: "\<And>p. canOpen (exampleSaveEnv True) p" by (simp add: exampleSaveEnv_def)
  have ne: "''/d/_a_Makefile'' \<noteq> ''/d/fileids''" by simp
  have v: "databaseVersion (exampleSaveEnv True) = 7"
    "projectSave (exampleSaveEnv True) ''/a/Makefile'' = (True, [Bytes ''project''])"
    "indexerSave (exampleSaveEnv True) 1 = (True, [Bytes ''indexer''])"
    "pathsToIds (exampleSaveEnv True) = [(''/a/x.c'', 1)]"
    by (simp_all add: exampleSaveEnv_def)
  from saveTimerCallback_writes_versioned_blobs [of "exampleSaveEnv True" 3 1
      "mProjects registryCurrentA" ?pst Map.empty "''/d/_a_Makefile''" "''/a/Makefile''"]
    m o example_save_project ne
  show ?thesis unfolding example_save_paths v by simp
qed

text \<open>
  C7 as stated fails: the blob is not written to a temporary file and renamed. The file is
  opened for writing at its final path, so when \<^verbatim>\<open>Project::save\<close> fails part-way the
  complete blob of an earlier save is gone and a truncated one stands in its place.
\<close>

theorem save_in_place_counterexample:
  "fst (projectSave (exampleSaveEnv False) ''/a/Makefile'') = False
   \<and> [''/d/_a_Makefile'' \<mapsto> [Int32 7, Bytes ''project'', Bytes ''indexer'']] ''/d/_a_Makefile''
       = Some [Int32 7, Bytes ''project'', Bytes ''indexer'']
   \<and> snd (saveTimerCallback (exampleSaveEnv False) 3 1 (mProjects registryCurrentA)
          (\<lparr>mSaveTimers = [1 \<mapsto> 3], loopTimers = [3 \<mapsto> \<lparr>interval = 5000, userData = 1\<rparr>]\<rparr>,
           [''/d/_a_Makefile'' \<mapsto> [Int32 7, Bytes ''project'', Bytes ''indexer'']]))
         ''/d/_a_Makefile''
       = Some [Int32 7, Bytes ''pro'']"
proof -
  have m: "mkdirOk (exampleSaveEnv False)" by (simp add: exampleSaveEnv_def)
  have o: "\<And>p. canOpen (exampleSaveEnv False) p" by (simp add: exampleSaveEnv_def)
  have v: "databaseVersion (exampleSaveEnv False) = 7"
    "projectSave (exampleSaveEnv False) ''/a/Makefile'' = (False, [Bytes ''pro''])"
    by (simp_all add: exampleSaveEnv_def)
  have s: "save (exampleSaveEnv False) 1 (mProjects registryCurrentA)
        [''/d/_a_Makefile'' \<mapsto> [Int32 7, Bytes ''project'', Bytes ''indexer'']] ''/d/_a_Makefile''
       = Some [Int32 7, Bytes ''pro'']"
    using saveProject_written [OF example_save_project, of "exampleSaveEnv False"] m o
    unfolding example_save_paths v
    by (simp add: save_def Let_def example_save_paths)
  from s v show ?thesis by (simp add: saveTimerCallback_def)
qed

subsection \<open>Binding the socket\<close>

declare listenLoop.simps [simp del]

lemma listenLoop_binds:
  "i < 10 \<Longrightarrow> listenOk env w \<Longrightarrow> listenLoop env i w acts = (True, bound env w, acts @ [Listen])"
  by (subst listenLoop.simps) simp

lemma listenLoop_retries:
  "i < 10 \<Longrightarrow> \<not> listenOk env w \<Longrightarrow>
   listenLoop env i w acts = listenLoop env (Suc i) (failedAttempt env i w) (acts @ failedActions i)"
  by (subst listenLoop.simps) (simp add: failedAttempt_def failedActions_def)

lemma listenLoop_gives_up: "listenLoop env 10 w acts = (False, w, acts)"
  by (subst listenLoop.simps) simp

lemma listenLoop_failed_prefix:
  "k \<le> 10 \<Longrightarrow> (\<forall>j < k. \<not> listenOk env (worldBefore env w j)) \<Longrightarrow>
   listenLoop env 0 w [] = listenLoop env k (worldBefore env w k) (actionsBefore k)"
proof (induction k)
  case 0 show ?case by simp
next
  case (Suc k)
  from Suc.prems have k: "k < 10" and nl: "\<not> listenOk env (worldBefore env w k)" by auto
  from Suc have "listenLoop env 0 w [] = listenLoop env k (worldBefore env w k) (actionsBefore k)"
    by simp
  also have "\<dots> = listenLoop env (Suc k) (failedAttempt env k (worldBefore env w k))
      (actionsBefore k @ failedActions k)"
    using k nl by (rule listenLoop_retries)
  finally show ?case by simp
qed

text \<open>
  C8, as the code has it. When attempt \<open>k\<close> (counted from 0, so \<open>k < 10\<close>) is the first
  whose \<^verbatim>\<open>listen\<close> binds, \<open>init\<close> gets past the loop with the server bound, having
  made the actions of \<open>k\<close> failed attempts and one more \<^verbatim>\<open>listen\<close>: a failed attempt is
  followed by a sleep and the removal of the socket file, and the first failed attempt, only
  that one, also by the Shutdown message. When none of the 10 attempts binds, \<open>init\<close>
  returns false after the actions of 10 failed attempts.
\<close>

theorem init_listen_retries:
  "(k < 10 \<and> listenOk env (worldBefore env w k)
      \<and> (\<forall>j < k. \<not> listenOk env (worldBefore env w j)) \<longrightarrow>
      init env w = (True, bound env (worldBefore env w k), actionsBefore k @ [Listen]))
   \<and> ((\<forall>j < 10. \<not> listenOk env (worldBefore env w j)) \<longrightarrow>
        init env w = (False, worldBefore env w 10, actionsBefore 10))"
proof -
  have a: "init env w = (True, bound env (worldBefore env w k), actionsBefore k @ [Listen])"
    if "k < 10" "listenOk env (worldBefore env w k)"
      "\<forall>j < k. \<not> listenOk env (worldBefore env w j)"
    using listenLoop_failed_prefix [of k env w] that listenLoop_binds [OF that(1,2)]
    by (simp add: init_def)
  have b: "init env w = (False, worldBefore env w 10, actionsBefore 10)"
    if "\<forall>j < 10. \<not> listenOk env (worldBefore env w j)"
    using listenLoop_failed_prefix [of 10 env w] that listenLoop_gives_up
    by (simp add: init_def)
  from a b show ?thesis by blast
qed

lemma stale_world: "worldBefore staleSocketEnv True (Suc 0) = False"
  by (simp add: failedAttempt_def staleSocketEnv_def)

lemma never_binds_world: "worldBefore neverBindsEnv w k = ()"
  by simp

theorem init_listen_retries_witness:
  "Suc 0 < 10 \<and> listenOk staleSocketEnv (worldBefore staleSocketEnv True (Suc 0))
   \<and> \<not> listenOk staleSocketEnv (worldBefore staleSocketEnv True 0)
   \<and> init staleSocketEnv True
       = (True, False, [Listen, SendShutdown, Sleep, RemoveSocket, Listen])
   \<and> \<not> listenOk neverBindsEnv ()
   \<and> fst (init neverBindsEnv ()) = False
   \<and> length (snd (snd (init neverBindsEnv ()))) = 31"
proof -
  have l0: "\<not> listenOk staleSocketEnv (worldBefore staleSocketEnv True 0)"
    by (simp add: staleSocketEnv_def)
  have l1: "listenOk staleSocketEnv (worldBefore staleSocketEnv True (Suc 0))"
    unfolding stale_world by (simp add: staleSocketEnv_def)
  have all0: "\<forall>j < Suc 0. \<not> listenOk staleSocketEnv (worldBefore staleSocketEnv True j)"
    using l0 by simp
  have n: "\<forall>j < 10. \<not> listenOk neverBindsEnv (worldBefore neverBindsEnv () j)"
    by (simp add: neverBindsEnv_def)
  have a10: "length (actionsBefore 10) = 31"
    by (simp add: eval_nat_numeral failedActions_def)
  have b: "bound staleSocketEnv False = False" by (simp add: staleSocketEnv_def)
  have k: "Suc 0 < 10" by simp
  note first = init_listen_retries [of "Suc 0" staleSocketEnv True, THEN conjunct1, THEN mp]
  have "init staleSocketEnv True
      = (True, bound staleSocketEnv (worldBefore staleSocketEnv True (Suc 0)),
         actionsBefore (Suc 0) @ [Listen])"
    by (rule first) (intro conjI k l1 all0)
  then have s1: "init staleSocketEnv True
      = (True, False, [Listen, SendShutdown, Sleep, RemoveSocket, Listen])"
    unfolding stale_world b by (simp add: failedActions_def)
  note none = init_listen_retries [of 0 neverBindsEnv "()", THEN conjunct2, THEN mp]
  have s2: "init neverBindsEnv () = (False, worldBefore neverBindsEnv () 10, actionsBefore 10)"
    by (rule none) (rule n)
  have nl: "\<not> listenOk neverBindsEnv ()" by (simp add: neverBindsEnv_def)
  from s1 s2 l0 l1 a10 nl show ?thesis by simp
qed

text \<open>
  C8 as stated fails at the first attempt, which nothing precedes: when the first
  \<^verbatim>\<open>listen\<close> binds, no Shutdown message has been sent and no socket file removed. And
  of the later attempts only the second follows a Shutdown message: when the third attempt is
  reached, the actions between the second and the third are a sleep and the removal alone.
\<close>

theorem init_first_attempt_counterexample:
  "init staleSocketEnv False = (True, False, [Listen])
   \<and> SendShutdown \<notin> set [Listen] \<and> RemoveSocket \<notin> set [Listen]
   \<and> actionsBefore 2
       = [Listen, SendShutdown, Sleep, RemoveSocket, Listen, Sleep, RemoveSocket]"
proof -
  have "init staleSocketEnv False = (True, False, [Listen])"
    using listenLoop_binds [of 0 staleSocketEnv False "[]"]
    by (simp add: init_def staleSocketEnv_def)
  then show ?thesis by (simp add: eval_nat_numeral failedActions_def)
qed

subsection \<open>Source-root discovery\<close>






text \<open>
  A pattern of the table that begins with a literal character is matched against the whole
  path of the entry, which begins with a slash: it matches no entry.
\<close>

lemma fnmatch_literal_start:
  "p \<noteq> CHR ''*'' \<Longrightarrow> p \<noteq> CHR ''?'' \<Longrightarrow> p \<noteq> CHR ''/'' \<Longrightarrow>
   \<not> fnmatch (p # ps) (CHR ''/'' # s)"
  by simp

























end
